theory Spec2Isabelle
  imports Main "HOL-Library.Word"
begin

unbundle bit_operations_syntax

section \<open>Machine types and errors\<close>

type_synonym byte = "8 word"
type_synonym u32 = "32 word"
type_synonym u64 = "64 word"
type_synonym int64 = "64 word"

text \<open>
  An \<open>int64\<close> is a 64-bit word read as signed (\<open>sint\<close>). Where the model computes with
  the values of \<open>int64\<close> variables as integers, every operation of the source that can
  leave the range is followed by \<open>wrap64\<close>, which gives the \<open>int64\<close> with the same low 64
  bits: Go's arithmetic wraps around.
\<close>

definition wrap64 :: "int \<Rightarrow> int" where
  "wrap64 x = sint (word_of_int x :: 64 word)"

text \<open>
  Go's \<open>error\<close> values that the modelled code produces or passes on. \<open>ErrOther\<close> stands
  for an error of a collaborator (a file system driver, a message handler).
\<close>

datatype error = EOF | ErrUnexpectedEOF | ErrInvalidPiece | ErrOther string

section \<open>Wire codec (package common)\<close>

text \<open>
  \<open>binary.BigEndian.PutUint32\<close> and \<open>binary.BigEndian.Uint32\<close> on four bytes. \<open>Uint32\<close>
  panics on a slice of fewer than four bytes; that case is written out where it is called
  on a slice whose length is not known (\<open>Len\<close>).
\<close>

definition PutUint32 :: "u32 \<Rightarrow> byte list" where
  "PutUint32 v = [ucast (drop_bit 24 v), ucast (drop_bit 16 v), ucast (drop_bit 8 v), ucast v]"

definition Uint32 :: "byte list \<Rightarrow> u32" where
  "Uint32 b = push_bit 24 (ucast (b ! 0)) OR push_bit 16 (ucast (b ! 1))
                OR push_bit 8 (ucast (b ! 2)) OR ucast (b ! 3)"

type_synonym WireMessageType = byte

definition Choke :: WireMessageType where "Choke = 0"
definition Request :: WireMessageType where "Request = 6"
definition Piece :: WireMessageType where "Piece = 7"
definition Invalid :: WireMessageType where "Invalid = 255"

type_synonym WireMessage = "byte list"

record PieceData =
  Index :: u32
  Begin :: u32
  Data :: "byte list"

record PieceRequest =
  rIndex :: u32
  rBegin :: u32
  rLength :: u32

text \<open>
  \<open>NewWireMessage\<close>: the length prefix is \<open>uint32(len(body) + 1)\<close>, so it is the length
  modulo \<open>2 ^ 32\<close>.
\<close>

definition NewWireMessage :: "WireMessageType \<Rightarrow> byte list \<Rightarrow> WireMessage" where
  "NewWireMessage mid body = PutUint32 (of_nat (length body + 1)) @ [mid] @ body"

definition MaxWireMessageSize :: nat where
  "MaxWireMessageSize = 32 * 1024"

text \<open>
  A function that can panic returns an option, \<open>None\<close> for the panic. \<open>Len\<close> panics on a
  message of fewer than four bytes (in \<open>Uint32\<close>), \<open>Payload\<close> also on the slice \<open>msg[5:]\<close> of
  a message of fewer than five bytes. The \<open>nil\<close> slice is the empty list.
\<close>

definition Len :: "WireMessage \<Rightarrow> u32 option" where
  "Len msg = (if length msg < 4 then None else Some (Uint32 msg))"

definition Payload :: "WireMessage \<Rightarrow> byte list option" where
  "Payload msg =
     (case Len msg of
        None \<Rightarrow> None
      | Some l \<Rightarrow>
          if l > 0 then (if length msg < 5 then None else Some (drop 5 msg))
          else Some [])"

definition MessageID :: "WireMessage \<Rightarrow> WireMessageType" where
  "MessageID msg = (if length msg > 4 then msg ! 4 else Invalid)"

definition PieceData_ToWireMessage :: "PieceData \<Rightarrow> WireMessage" where
  "PieceData_ToWireMessage p =
     NewWireMessage Piece (PutUint32 (Index p) @ PutUint32 (Begin p) @ Data p)"

definition PieceRequest_ToWireMessage :: "PieceRequest \<Rightarrow> WireMessage" where
  "PieceRequest_ToWireMessage req =
     NewWireMessage Request (PutUint32 (rIndex req) @ PutUint32 (rBegin req) @ PutUint32 (rLength req))"

text \<open>
  \<open>GetPieceData\<close> and \<open>GetPieceRequest\<close> return the zero value of their struct unless the
  message id and the payload length pass the source's checks. Their calls of \<open>Uint32\<close> are
  on slices that these checks have made long enough.
\<close>

definition GetPieceData :: "WireMessage \<Rightarrow> PieceData option" where
  "GetPieceData msg =
     (if MessageID msg = Piece then
        (case Payload msg of
           None \<Rightarrow> None
         | Some data \<Rightarrow>
             Some (if length data > 8 then
                     \<lparr>Index = Uint32 data, Begin = Uint32 (drop 4 data), Data = drop 8 data\<rparr>
                   else \<lparr>Index = 0, Begin = 0, Data = []\<rparr>))
      else Some \<lparr>Index = 0, Begin = 0, Data = []\<rparr>)"

definition GetPieceRequest :: "WireMessage \<Rightarrow> PieceRequest option" where
  "GetPieceRequest msg =
     (if MessageID msg = Request then
        (case Payload msg of
           None \<Rightarrow> None
         | Some data \<Rightarrow>
             Some (if length data = 12 then
                     \<lparr>rIndex = Uint32 data, rBegin = Uint32 (drop 4 data), rLength = Uint32 (drop 8 data)\<rparr>
                   else \<lparr>rIndex = 0, rBegin = 0, rLength = 0\<rparr>))
      else Some \<lparr>rIndex = 0, rBegin = 0, rLength = 0\<rparr>)"

subsection \<open>The wire reader\<close>

text \<open>
  The reader is a finite byte stream: the bytes still to come, after which every read
  reports end of file. \<open>ReadFull s n buf\<close> is \<open>io.ReadFull\<close> into a buffer of \<open>n\<close> bytes
  whose present contents are \<open>buf\<close>: it returns the buffer afterwards, the rest of the
  stream and the error. \<open>CopyN_Discard s n\<close> is \<open>io.CopyN(util.Discard, r, n)\<close>.
\<close>

definition ReadFull :: "byte list \<Rightarrow> nat \<Rightarrow> byte list \<Rightarrow> byte list \<times> byte list \<times> error option" where
  "ReadFull s n buf =
     (if n \<le> length s then (take n s, drop n s, None)
      else if s = [] then (buf, [], Some EOF)
      else (s @ drop (length s) buf, [], Some ErrUnexpectedEOF))"

definition CopyN_Discard :: "byte list \<Rightarrow> nat \<Rightarrow> byte list \<times> error option" where
  "CopyN_Discard s n = (if n \<le> length s then (drop n s, None) else ([], Some EOF))"

text \<open>
  What the reader did, in order: a frame handed to the handler, or a frame logged as too
  big and drained. The loop of \<open>ReadWireMessages\<close> ends with an error, or panics on a slice
  of the fixed buffer \<open>msg\<close> that is out of range.
\<close>

datatype event = Dispatched WireMessage | Discarded u32

datatype outcome = Returned error | Panicked

definition emit :: "event \<Rightarrow> event list \<times> outcome \<Rightarrow> event list \<times> outcome" where
  "emit ev r = (ev # fst r, snd r)"

text \<open>
  One call of the function below is one iteration of the loop \<open>for err == nil\<close>; \<open>hdr\<close> is
  the present content of \<open>msg[:4]\<close>, which a failed header read leaves (partly) as it was
  and from which the length is decoded all the same. The slice \<open>msg[4 : 4+l]\<close> of the
  array of \<open>MaxWireMessageSize + 4\<close> bytes is computed in \<open>uint32\<close>.
\<close>

function ReadWireMessages_loop ::
  "(WireMessage \<Rightarrow> error option) \<Rightarrow> byte list \<Rightarrow> byte list \<Rightarrow> event list \<times> outcome" where
  "ReadWireMessages_loop f hdr s =
     (case ReadFull s 4 hdr of (data, s1, err1) \<Rightarrow>
        let l = Uint32 data in
        if l > 0 then
          if unat l < MaxWireMessageSize then
            (case CopyN_Discard s1 (unat l) of (s2, err2) \<Rightarrow>
               (case err2 of
                  None \<Rightarrow> emit (Discarded l) (ReadWireMessages_loop f data s2)
                | Some e \<Rightarrow> ([Discarded l], Returned e)))
          else if unat (4 + l) < 4 \<or> unat (4 + l) > MaxWireMessageSize + 4 then ([], Panicked)
          else
            (case ReadFull s1 (unat l) [] of (body, s2, err2) \<Rightarrow>
               (case err2 of
                  Some e \<Rightarrow> ([], Returned e)
                | None \<Rightarrow>
                    (case f (data @ body) of
                       Some e \<Rightarrow> ([Dispatched (data @ body)], Returned e)
                     | None \<Rightarrow> emit (Dispatched (data @ body)) (ReadWireMessages_loop f data s2))))
        else
          (case err1 of
             None \<Rightarrow> ReadWireMessages_loop f data s1
           | Some e \<Rightarrow> ([], Returned e)))"
  by pat_completeness auto
termination
proof (relation "measure (\<lambda>(f, hdr, s). length s)")
  show "wf (measure (\<lambda>(f, hdr, s). length s))" by simp
next
  fix f :: "WireMessage \<Rightarrow> error option" and hdr s x data y s1 err1 l x2 s2 err2
  assume "(data, y) = ReadFull s 4 hdr" "(s1, err1) = y" "l = Uint32 data" "0 < l"
    "(s2, err2) = CopyN_Discard s1 (unat l)" "err2 = None"
  then show "((f, data, s2), (f, hdr, s)) \<in> measure (\<lambda>(f, hdr, s). length s)"
    by (auto simp: ReadFull_def CopyN_Discard_def word_less_nat_alt split: if_splits)
next
  fix f :: "WireMessage \<Rightarrow> error option" and hdr s x data y s1 err1 l x2 body y2 s2 err2
  assume "(data, y) = ReadFull s 4 hdr" "(s1, err1) = y" "l = Uint32 data" "0 < l"
    "(body, y2) = ReadFull s1 (unat l) []" "(s2, err2) = y2" "err2 = None"
  then show "((f, data, s2), (f, hdr, s)) \<in> measure (\<lambda>(f, hdr, s). length s)"
    by (auto simp: ReadFull_def word_less_nat_alt split: if_splits)
next
  fix f :: "WireMessage \<Rightarrow> error option" and hdr s x data y s1 err1 l
  assume "(data, y) = ReadFull s 4 hdr" "(s1, err1) = y" "err1 = None"
  then show "((f, data, s1), (f, hdr, s)) \<in> measure (\<lambda>(f, hdr, s). length s)"
    by (auto simp: ReadFull_def split: if_splits)
qed

declare ReadWireMessages_loop.simps [simp del]

definition ReadWireMessages :: "byte list \<Rightarrow> (WireMessage \<Rightarrow> error option) \<Rightarrow> event list \<times> outcome" where
  "ReadWireMessages r f = ReadWireMessages_loop f [0, 0, 0, 0] r"

section \<open>Torrent manifest (package metainfo)\<close>

text \<open>
  The structs \<open>FileInfo\<close>, \<open>Info\<close> and \<open>TorrentFile\<close>, with the fields the core reads.
  The fields of \<open>FileInfo\<close> carry the prefix \<open>f\<close>, since \<open>Info\<close> has fields of the same
  names. A pointer field that may be \<open>nil\<close> is an option.
\<close>

record FileInfo =
  fLength :: u64
  fPath :: "string list"
  fSum :: "byte list"

record Info =
  PieceLength :: u32
  Pieces :: "byte list"
  Path :: string
  Files :: "FileInfo list"
  Private :: "u64 option"
  Length :: u64
  Sum :: "byte list"
  MetaVersion :: "u64 option"

record TorrentFile =
  Info :: Info
  Announce :: string
  AnnounceList :: "string list list"

definition IsV2Compat :: "Info \<Rightarrow> bool" where
  "IsV2Compat i = (MetaVersion i \<noteq> None \<and> MetaVersion i = Some 2)"

definition IsV1Compat :: "Info \<Rightarrow> bool" where
  "IsV1Compat i = (MetaVersion i = None \<or> MetaVersion i = Some 1)"

definition IsV1Only :: "Info \<Rightarrow> bool" where
  "IsV1Only i = (MetaVersion i = None)"

definition GetFiles :: "Info \<Rightarrow> FileInfo list" where
  "GetFiles i =
     (if Length i > 0 then [\<lparr>fLength = Length i, fPath = [Path i], fSum = Sum i\<rparr>]
      else Files i)"

text \<open>\<open>NumPieces\<close> is \<open>uint32(len(i.Pieces) / 20)\<close>.\<close>

definition NumPieces :: "Info \<Rightarrow> u32" where
  "NumPieces i = of_nat (length (Pieces i) div 20)"

definition IsSingleFile :: "TorrentFile \<Rightarrow> bool" where
  "IsSingleFile tf = (Length (Info tf) > 0)"

text \<open>The loop of \<open>TotalSize\<close> adds the file lengths in \<open>uint64\<close>.\<close>

fun sum_lengths :: "FileInfo list \<Rightarrow> u64 \<Rightarrow> u64" where
  "sum_lengths [] tot = tot"
| "sum_lengths (f # fs) tot = sum_lengths fs (tot + fLength f)"

definition TotalSize :: "TorrentFile \<Rightarrow> u64" where
  "TotalSize tf = (if IsSingleFile tf then Length (Info tf) else sum_lengths (Files (Info tf)) 0)"

definition LengthOfPiece :: "TorrentFile \<Rightarrow> u32 \<Rightarrow> u32" where
  "LengthOfPiece tf idx =
     (let i = Info tf; np = NumPieces i in
      if np = idx + 1 then
        (let sz = TotalSize tf;
             l64 = (ucast (PieceLength i) :: u64) - ((ucast np * ucast (PieceLength i)) - sz)
         in ucast l64)
      else PieceLength i)"

text \<open>
  \<open>CheckPiece\<close>: the offset \<open>idx := p.Index * 20\<close> into the table of hashes is a \<open>uint32\<close>,
  and so is \<open>idx + 20\<close>. The slice expression \<open>i.Pieces[idx : idx+20]\<close> panics when its
  bounds are out of order or beyond the table; a panic is the result \<open>None\<close>. The hash
  function \<open>sha1.Sum\<close> is a parameter.
\<close>

definition go_slice :: "'a list \<Rightarrow> nat \<Rightarrow> nat \<Rightarrow> 'a list option" where
  "go_slice xs lo hi = (if lo \<le> hi \<and> hi \<le> length xs then Some (take (hi - lo) (drop lo xs)) else None)"

definition CheckPiece :: "(byte list \<Rightarrow> byte list) \<Rightarrow> Info \<Rightarrow> PieceData \<Rightarrow> bool option" where
  "CheckPiece sha1 i p =
     (let idx = Index p * 20 in
      if NumPieces i > Index p then
        (case go_slice (Pieces i) (unat idx) (unat (idx + 20)) of
           None \<Rightarrow> None
         | Some expected \<Rightarrow> Some (sha1 (Data p) = expected))
      else Some False)"

text \<open>
  The interface \<open>common.Infohash\<close> has the two implementations \<open>InfohashV1\<close> and
  \<open>InfohashV2\<close>, both byte arrays; a value of the interface is one or the other. Their
  declarations are not among the sources: the size of the v2 array is the parameter \<open>n\<close>,
  the v1 array has the 20 bytes that \<open>InfohashV1\<close> copies a digest into. The bencoding of
  the info dictionary (an external library) and SHA-1 are parameters.
\<close>

datatype Infohash = V1 "byte list" | V2 "byte list"

definition InfohashV1 :: "(byte list \<Rightarrow> byte list) \<Rightarrow> (Info \<Rightarrow> byte list) \<Rightarrow> TorrentFile \<Rightarrow> Infohash" where
  "InfohashV1 sha1 bencode tf =
     (let d = sha1 (bencode (Info tf)) in V1 (take 20 d @ replicate (20 - length d) 0))"

definition InfohashV2 :: "nat \<Rightarrow> TorrentFile \<Rightarrow> Infohash" where
  "InfohashV2 n tf = V2 (replicate n 0)"

definition Infohash :: "(byte list \<Rightarrow> byte list) \<Rightarrow> (Info \<Rightarrow> byte list) \<Rightarrow> nat \<Rightarrow> TorrentFile \<Rightarrow> Infohash" where
  "Infohash sha1 bencode n tf =
     (if IsV1Only (Info tf) then InfohashV1 sha1 bencode tf else InfohashV2 n tf)"

section \<open>Bitfield (package bittorrent)\<close>

text \<open>
  Modelled from the spec: the type \<open>Bitfield\<close> and its methods (package \<open>xd/lib/bittorrent\<close>)
  are not among the sources; only their callers are. The spec has it as a "packed bit vector
  of length N (number of pieces)", where "bit i set means piece i verified and on disk", with
  the operations \<open>set(i)\<close>, \<open>has(i)\<close>, \<open>count_set()\<close>, \<open>equals(other)\<close>, \<open>inverted()\<close> and
  \<open>find_rarest\<close>. The model keeps the N bits as a list of booleans and leaves the packing
  into bytes out. A piece index (\<open>uint32\<close> in the callers) is a natural number here; an
  index beyond the length is not set, and setting it changes nothing.
\<close>

type_synonym Bitfield = "bool list"

definition NewBitfield :: "nat \<Rightarrow> Bitfield" where
  "NewBitfield n = replicate n False"

definition Has :: "Bitfield \<Rightarrow> nat \<Rightarrow> bool" where
  "Has bf i = (i < length bf \<and> bf ! i)"

definition Set :: "Bitfield \<Rightarrow> nat \<Rightarrow> Bitfield" where
  "Set bf i = (if i < length bf then bf[i := True] else bf)"

definition CountSet :: "Bitfield \<Rightarrow> nat" where
  "CountSet bf = length (filter (\<lambda>b. b) bf)"


definition Equals :: "Bitfield \<Rightarrow> Bitfield \<Rightarrow> bool" where
  "Equals bf other = (bf = other)"

definition Completed :: "Bitfield \<Rightarrow> bool" where
  "Completed bf = (CountSet bf = length bf)"

text \<open>
  Modelled from the spec: \<open>FindRarest\<close> is missing with the rest of the package. The spec:
  "among pieces that are (a) set in \<open>remote\<close>, (b) not set in our local bitfield, (c) not
  rejected by \<open>exclude_predicate\<close>, pick the index with the smallest count across
  \<open>peer_bitfields\<close>. Ties broken by lowest index. If no candidate exists, return none."
  The method is called on \<open>remote\<close> with the peer bitfields and one predicate; its caller
  \<open>getRarestPiece\<close> below puts (b) into that predicate. The scan goes up the indices and
  replaces the best piece so far only by a strictly rarer one.
\<close>

definition count_peers :: "Bitfield list \<Rightarrow> nat \<Rightarrow> nat" where
  "count_peers swarm i = length (filter (\<lambda>bf. Has bf i) swarm)"

fun rarest_of :: "(nat \<Rightarrow> nat) \<Rightarrow> nat list \<Rightarrow> nat option \<Rightarrow> nat option" where
  "rarest_of cnt [] best = best"
| "rarest_of cnt (i # rest) best =
     rarest_of cnt rest
       (case best of None \<Rightarrow> Some i | Some b \<Rightarrow> if cnt i < cnt b then Some i else Some b)"

definition FindRarest :: "Bitfield \<Rightarrow> Bitfield list \<Rightarrow> (nat \<Rightarrow> bool) \<Rightarrow> nat option" where
  "FindRarest remote swarm exclude =
     rarest_of (count_peers swarm)
       (filter (\<lambda>i. Has remote i \<and> \<not> exclude i) [0..<length remote]) None"

section \<open>Rarest piece of a torrent (package swarm)\<close>

text \<open>
  \<open>getRarestPiece\<close> of the source: \<open>peers\<close> are the bitfields of the open peer connections
  in the order \<open>VisitPeers\<close> yields them, \<open>None\<close> for a connection whose \<open>bf\<close> is \<open>nil\<close>;
  \<open>bt\<close> is the local bitfield \<open>t.st.Bitfield()\<close>. The pair \<open>(idx, has)\<close> that the source
  returns is an option.
\<close>

definition getRarestPiece ::
  "Bitfield option list \<Rightarrow> Bitfield \<Rightarrow> Bitfield \<Rightarrow> nat list \<Rightarrow> nat option" where
  "getRarestPiece peers bt remote exclude =
     (let swarm = List.map_filter (\<lambda>c. c) peers in
      FindRarest remote swarm (\<lambda>idx. Has bt idx \<or> idx \<in> set exclude))"

text \<open>
  The words of the claim about it: the availability of a piece is the number of peer
  bitfields that have it, and a candidate is a piece the remote has, we have not, and that
  is not excluded.
\<close>

definition availability :: "Bitfield option list \<Rightarrow> nat \<Rightarrow> nat" where
  "availability peers i =
     length (filter (\<lambda>c. case c of None \<Rightarrow> False | Some bf \<Rightarrow> Has bf i) peers)"

definition candidate :: "Bitfield \<Rightarrow> Bitfield \<Rightarrow> nat list \<Rightarrow> nat \<Rightarrow> bool" where
  "candidate remote bt exclude j = (Has remote j \<and> \<not> Has bt j \<and> j \<notin> set exclude)"

section \<open>Piece store (package storage)\<close>

text \<open>
  The functions of Go's library that the store calls are parameters, collected in a record:
  \<open>sha1.Sum\<close> and \<open>filepath.Join\<close>.
\<close>

record lib =
  sha1_Sum :: "byte list \<Rightarrow> byte list"
  filepath_Join :: "string list \<Rightarrow> string"

text \<open>
  Modelled from the spec: the file system driver \<open>fs.Driver\<close> with its files
  (package \<open>xd/lib/fs\<close>) is not among the sources. The spec has the content "addressed as
  one linear byte stream" that "maps left-to-right into the file list", files that are
  "preallocated to declared length", storage errors that are "surfaced upward", and a
  bitfield file that holds the bitfield in bencoded form. In the model a disk has the
  content files by name, the bitfield files by name (shown decoded), and the names that
  cannot be opened for writing. A file is a byte sequence; reading and writing at an offset
  follow the contracts of \<open>io.ReaderAt\<close> and \<open>io.WriterAt\<close>: a read returns the bytes
  that exist from the offset on and \<open>EOF\<close> if they are fewer than asked for, a write
  replaces the bytes from the offset on and extends the file with zeros and the data where
  it is shorter; a negative offset is an error. Opening a missing file for reading is an
  error, and every read through the handle it leaves fails; opening for writing creates a
  missing file.
\<close>

record Disk =
  files :: "string \<rightharpoonup> byte list"
  bitfields :: "string \<rightharpoonup> Bitfield"
  readonly :: "string set"

definition OpenFileReadOnly :: "Disk \<Rightarrow> string \<Rightarrow> byte list option \<times> error option" where
  "OpenFileReadOnly d fname =
     (case files d fname of
        None \<Rightarrow> (None, Some (ErrOther ''open''))
      | Some c \<Rightarrow> (Some c, None))"

definition File_ReadAt :: "byte list option \<Rightarrow> nat \<Rightarrow> int \<Rightarrow> byte list \<times> error option" where
  "File_ReadAt f n off =
     (case f of
        None \<Rightarrow> ([], Some (ErrOther ''invalid''))
      | Some c \<Rightarrow>
          if off < 0 then ([], Some (ErrOther ''negative offset''))
          else (let r = take n (drop (nat off) c) in (r, if length r < n then Some EOF else None)))"

definition OpenFileWriteOnly :: "Disk \<Rightarrow> string \<Rightarrow> error option" where
  "OpenFileWriteOnly d fname = (if fname \<in> readonly d then Some (ErrOther ''open'') else None)"

definition write_bytes :: "byte list \<Rightarrow> nat \<Rightarrow> byte list \<Rightarrow> byte list" where
  "write_bytes c off p = take off (c @ replicate (off - length c) 0) @ p @ drop (off + length p) c"

definition File_WriteAt :: "Disk \<Rightarrow> string \<Rightarrow> byte list \<Rightarrow> int \<Rightarrow> nat \<times> Disk \<times> error option" where
  "File_WriteAt d fname p off =
     (if off < 0 then (0, d, Some (ErrOther ''negative offset''))
      else
        (let c = (case files d fname of None \<Rightarrow> [] | Some c \<Rightarrow> c)
         in (length p, d\<lparr>files := (files d)(fname \<mapsto> write_bytes c (nat off) p)\<rparr>, None)))"

text \<open>
  The structs \<open>FsStorage\<close> and \<open>fsTorrent\<close>. The driver's \<open>Join\<close> is the field \<open>FS_Join\<close>;
  the files the driver manages are the disk that the functions below take and return. The
  cached bitfield \<open>bf\<close> is \<open>None\<close> while the pointer is \<open>nil\<close>.
\<close>

record FsStorage =
  DataDir :: string
  MetaDir :: string
  FS_Join :: "string \<Rightarrow> string \<Rightarrow> string"

record fsTorrent =
  st :: FsStorage
  ih :: Infohash
  meta :: TorrentFile
  bf :: "Bitfield option"

text \<open>
  Modelled from the spec: \<open>Infohash.Hex\<close> is not among the sources; the spec has the
  infohash "serialised as lowercase hex".
\<close>

definition hex_byte :: "byte \<Rightarrow> string" where
  "hex_byte b = [''0123456789abcdef'' ! (unat b div 16), ''0123456789abcdef'' ! (unat b mod 16)]"

definition Hex :: "Infohash \<Rightarrow> string" where
  "Hex h = concat (map hex_byte (case h of V1 bs \<Rightarrow> bs | V2 bs \<Rightarrow> bs))"

definition bitfieldFilename :: "FsStorage \<Rightarrow> Infohash \<Rightarrow> string" where
  "bitfieldFilename s h = FS_Join s (MetaDir s) (Hex h @ ''.bitfield'')"

definition HasBitfield :: "FsStorage \<Rightarrow> Disk \<Rightarrow> Infohash \<Rightarrow> bool" where
  "HasBitfield s d h = (bitfields d (bitfieldFilename s h) \<noteq> None)"

definition FindBitfield :: "FsStorage \<Rightarrow> Disk \<Rightarrow> Infohash \<Rightarrow> Bitfield option" where
  "FindBitfield s d h = bitfields d (bitfieldFilename s h)"


definition CreateNewBitfield :: "FsStorage \<Rightarrow> Disk \<Rightarrow> Infohash \<Rightarrow> nat \<Rightarrow> Disk" where
  "CreateNewBitfield s d h bits =
     (case OpenFileWriteOnly d (bitfieldFilename s h) of
        Some e \<Rightarrow> d
      | None \<Rightarrow> d\<lparr>bitfields := (bitfields d)(bitfieldFilename s h \<mapsto> NewBitfield bits)\<rparr>)"

definition FilePath :: "fsTorrent \<Rightarrow> string" where
  "FilePath t = FS_Join (st t) (DataDir (st t)) (Path (Info (meta t)))"

text \<open>\<open>openfileRead\<close> and \<open>openfileWrite\<close> compute the same file name.\<close>

definition openfile_name :: "lib \<Rightarrow> fsTorrent \<Rightarrow> FileInfo \<Rightarrow> string" where
  "openfile_name L t i =
     (if IsSingleFile (meta t) then FS_Join (st t) (DataDir (st t)) (filepath_Join L (fPath i))
      else FS_Join (st t) (FilePath t) (filepath_Join L (fPath i)))"

definition openfileRead :: "lib \<Rightarrow> fsTorrent \<Rightarrow> Disk \<Rightarrow> FileInfo \<Rightarrow> byte list option \<times> error option" where
  "openfileRead L t d i = OpenFileReadOnly d (openfile_name L t i)"

definition openfileWrite :: "lib \<Rightarrow> fsTorrent \<Rightarrow> Disk \<Rightarrow> FileInfo \<Rightarrow> error option" where
  "openfileWrite L t d i = OpenFileWriteOnly d (openfile_name L t i)"

text \<open>
  The offsets inside \<open>ReadAt\<close> and \<open>WriteAt\<close> are \<open>int64\<close>: the model has their values,
  and \<open>wrap64\<close> after each addition and subtraction. The conversion \<open>int64(fi.Length)\<close> of
  the \<open>uint64\<close> field is \<open>sint\<close>, negative for a declared length of \<open>2 ^ 63\<close> or more. The
  length of a slice is an \<open>int\<close> that is never negative, a natural number here. A buffer is
  its length \<open>blen\<close> and, for the part already filled, the bytes \<open>acc\<close> read so far: the
  slice \<open>b = b[n1:]\<close> is the rest of the same buffer. A slice expression with a negative
  bound panics, and the functions that have one return an option, \<open>None\<close> for the panic.

  The loop of \<open>readFileAt\<close>. The result \<open>err\<close> starts as the error of \<open>openfileRead\<close>.
\<close>

function readFileAt_loop ::
  "byte list option \<Rightarrow> int \<Rightarrow> nat \<Rightarrow> int \<Rightarrow> byte list \<Rightarrow> error option \<Rightarrow> byte list \<times> error option" where
  "readFileAt_loop f fil blen off acc err =
     (if off < fil \<and> blen \<noteq> 0 then
        (case File_ReadAt f blen off of (r, err1) \<Rightarrow>
           if length r = 0 then (acc, err1)
           else readFileAt_loop f fil (blen - length r) (wrap64 (off + int (length r))) (acc @ r) err)
      else (acc, err))"
  by pat_completeness auto
termination
  by (relation "measure (\<lambda>(f, fil, blen, off, acc, err). blen)") auto

declare readFileAt_loop.simps [simp del]

text \<open>
  \<open>readFileAt\<close> clips the buffer to the bytes left in the file, \<open>b = b[:fil-off]\<close>. The
  difference \<open>fil - off\<close> wraps; when it is negative the slice expression panics.
\<close>

definition readFileAt ::
  "lib \<Rightarrow> fsTorrent \<Rightarrow> Disk \<Rightarrow> FileInfo \<Rightarrow> nat \<Rightarrow> int \<Rightarrow> (byte list \<times> error option) option" where
  "readFileAt L t d fi blen off =
     (case openfileRead L t d fi of (f, err) \<Rightarrow>
        let fil = sint (fLength fi);
            k = wrap64 (fil - off)
        in if int blen > k then
             (if k < 0 then None else Some (readFileAt_loop f fil (nat k) off [] err))
           else Some (readFileAt_loop f fil blen off [] err))"

text \<open>
  \<open>ReadAt\<close>: the inner loop \<open>for off < fil\<close> over one file either returns from the
  function, or leaves the file for the next one with \<open>off -= fil\<close>, or panics in
  \<open>readFileAt\<close>.
\<close>

datatype read_step = Return "byte list \<times> error option" | NextFile int nat "byte list" | Panics

function ReadAt_file ::
  "lib \<Rightarrow> fsTorrent \<Rightarrow> Disk \<Rightarrow> FileInfo \<Rightarrow> nat \<Rightarrow> int \<Rightarrow> byte list \<Rightarrow> read_step" where
  "ReadAt_file L t d fi blen off acc =
     (if off < sint (fLength fi) then
        (case readFileAt L t d fi blen off of
           None \<Rightarrow> Panics
         | Some (r, err1) \<Rightarrow>
             if blen - length r = 0 then Return (acc @ r, None)
             else if length r \<noteq> 0 then
               ReadAt_file L t d fi (blen - length r) (wrap64 (off + int (length r))) (acc @ r)
             else Return (acc @ r, if err1 = Some EOF then Some ErrUnexpectedEOF else err1))
      else NextFile (wrap64 (off - sint (fLength fi))) blen acc)"
  by pat_completeness auto
termination
  by (relation "measure (\<lambda>(L, t, d, fi, blen, off, acc). blen)") auto

declare ReadAt_file.simps [simp del]

fun ReadAt_files ::
  "lib \<Rightarrow> fsTorrent \<Rightarrow> Disk \<Rightarrow> FileInfo list \<Rightarrow> nat \<Rightarrow> int \<Rightarrow> byte list
     \<Rightarrow> (byte list \<times> error option) option" where
  "ReadAt_files L t d [] blen off acc = Some (acc, Some EOF)"
| "ReadAt_files L t d (fi # fis) blen off acc =
     (case ReadAt_file L t d fi blen off acc of
        Return r \<Rightarrow> Some r
      | NextFile off' blen' acc' \<Rightarrow> ReadAt_files L t d fis blen' off' acc'
      | Panics \<Rightarrow> None)"

text \<open>
  \<open>ReadAt\<close> returns the count, the buffer as it is afterwards, and the error, unless it
  panics.
\<close>

definition ReadAt ::
  "lib \<Rightarrow> fsTorrent \<Rightarrow> Disk \<Rightarrow> byte list \<Rightarrow> int64 \<Rightarrow> (nat \<times> byte list \<times> error option) option" where
  "ReadAt L t d b off =
     (case ReadAt_files L t d (GetFiles (Info (meta t))) (length b) (sint off) [] of
        None \<Rightarrow> None
      | Some (acc, err) \<Rightarrow> Some (length acc, acc @ drop (length acc) b, err))"

text \<open>
  \<open>WriteAt\<close>: the file is opened before the slice \<open>p[:n1]\<close> is taken, so a file that cannot
  be opened is an error also where the slice would panic.
\<close>

fun WriteAt_files ::
  "lib \<Rightarrow> fsTorrent \<Rightarrow> Disk \<Rightarrow> FileInfo list \<Rightarrow> byte list \<Rightarrow> int \<Rightarrow> nat
     \<Rightarrow> (nat \<times> Disk \<times> error option) option" where
  "WriteAt_files L t d [] p off n = Some (n, d, None)"
| "WriteAt_files L t d (fi # fis) p off n =
     (let fil = sint (fLength fi) in
      if off \<ge> fil then WriteAt_files L t d fis p (wrap64 (off - fil)) n
      else
        (let k = wrap64 (fil - off);
             n1 = (if int (length p) > k then k else int (length p)) in
         case openfileWrite L t d fi of
           Some e \<Rightarrow> Some (n, d, Some e)
         | None \<Rightarrow>
             if n1 < 0 then None
             else
               (case File_WriteAt d (openfile_name L t fi) (take (nat n1) p) off of (n1', d', err) \<Rightarrow>
                  (case err of
                     Some e \<Rightarrow> Some (n, d', Some e)
                   | None \<Rightarrow>
                       if drop n1' p = [] then Some (n + n1', d', None)
                       else WriteAt_files L t d' fis (drop n1' p) 0 (n + n1')))))"

definition WriteAt ::
  "lib \<Rightarrow> fsTorrent \<Rightarrow> Disk \<Rightarrow> byte list \<Rightarrow> int64 \<Rightarrow> (nat \<times> Disk \<times> error option) option" where
  "WriteAt L t d p off = WriteAt_files L t d (GetFiles (Info (meta t))) p (sint off) 0"

text \<open>
  The other panics of the store are a slice out of range in \<open>CheckPiece\<close> and a method
  called on the \<open>nil\<close> bitfield.

  \<open>Bitfield()\<close> loads the bitfield on first use; it creates the file when there is none.
\<close>

definition fsTorrent_Bitfield :: "fsTorrent \<Rightarrow> Disk \<Rightarrow> fsTorrent \<times> Disk \<times> Bitfield option" where
  "fsTorrent_Bitfield t d =
     (case bf t of
        Some b \<Rightarrow> (t, d, Some b)
      | None \<Rightarrow>
          (let d' = (if \<not> HasBitfield (st t) d (ih t)
                     then CreateNewBitfield (st t) d (ih t) (unat (NumPieces (Info (meta t))))
                     else d);
               b = FindBitfield (st t) d' (ih t)
           in (t\<lparr>bf := b\<rparr>, d', b)))"

definition DownloadRemaining :: "fsTorrent \<Rightarrow> Disk \<Rightarrow> (fsTorrent \<times> Disk \<times> u64) option" where
  "DownloadRemaining t d =
     (case fsTorrent_Bitfield t d of (t', d', b) \<Rightarrow>
        (case b of
           None \<Rightarrow> None
         | Some bits \<Rightarrow>
             (let have = (of_nat (CountSet bits) :: u64) * ucast (PieceLength (Info (meta t)))
              in Some (t', d', TotalSize (meta t) - have))))"

text \<open>
  \<open>VisitPiece\<close> reads the bytes of a request into a fresh buffer and, if that went without
  error, calls the visitor. The visitor may change what it captured (\<open>verifyBitfield\<close>
  passes a closure that sets a bit): it takes and returns that state \<open>s\<close>. The offset
  \<open>int64(r.Begin) + int64(sz) * int64(r.Index)\<close> is computed in 64 bits; the three
  conversions from \<open>uint32\<close> extend with zeros.
\<close>

definition piece_offset :: "u32 \<Rightarrow> u32 \<Rightarrow> u32 \<Rightarrow> int64" where
  "piece_offset begin sz idx = ucast begin + ucast sz * ucast idx"

definition VisitPiece ::
  "lib \<Rightarrow> fsTorrent \<Rightarrow> Disk \<Rightarrow> PieceRequest \<Rightarrow> (PieceData \<Rightarrow> 's \<Rightarrow> ('s \<times> error option) option) \<Rightarrow> 's
     \<Rightarrow> ('s \<times> error option) option" where
  "VisitPiece L t d r v s =
     (let sz = PieceLength (Info (meta t));
          buf = replicate (unat (rLength r)) 0
      in case ReadAt L t d buf (piece_offset (rBegin r) sz (rIndex r)) of
           None \<Rightarrow> None
         | Some (n, data, err) \<Rightarrow>
             (case err of
                None \<Rightarrow> v \<lparr>Index = rIndex r, Begin = rBegin r, Data = data\<rparr> s
              | Some e \<Rightarrow> Some (s, Some e)))"

definition checkPiece :: "lib \<Rightarrow> fsTorrent \<Rightarrow> PieceData \<Rightarrow> error option option" where
  "checkPiece L t pc =
     (case CheckPiece (sha1_Sum L) (Info (meta t)) pc of
        None \<Rightarrow> None
      | Some ok \<Rightarrow> Some (if \<not> ok then Some ErrInvalidPiece else None))"

definition VerifyPiece :: "lib \<Rightarrow> fsTorrent \<Rightarrow> Disk \<Rightarrow> u32 \<Rightarrow> error option option" where
  "VerifyPiece L t d idx =
     (let l = LengthOfPiece (meta t) idx in
      map_option snd
        (VisitPiece L t d \<lparr>rIndex = idx, rBegin = 0, rLength = l\<rparr>
           (\<lambda>pc u. map_option (\<lambda>e. (u, e)) (checkPiece L t pc)) ()))"

definition PutPiece :: "lib \<Rightarrow> fsTorrent \<Rightarrow> Disk \<Rightarrow> PieceData \<Rightarrow> (fsTorrent \<times> Disk \<times> error option) option" where
  "PutPiece L t d pc =
     (case checkPiece L t pc of
        None \<Rightarrow> None
      | Some (Some e) \<Rightarrow> Some (t, d, Some e)
      | Some None \<Rightarrow>
          (let sz = PieceLength (Info (meta t)) in
           case WriteAt L t d (Data pc) (piece_offset 0 sz (Index pc)) of
             None \<Rightarrow> None
           | Some (n, d', err) \<Rightarrow>
               (case err of
                  Some e \<Rightarrow> Some (t, d', Some e)
                | None \<Rightarrow>
                    (case bf t of
                       None \<Rightarrow> None
                     | Some b \<Rightarrow> Some (t\<lparr>bf := Some (Set b (unat (Index pc)))\<rparr>, d', None)))))"







subsection \<open>The words of the claims about the store\<close>

text \<open>
  The manifest hash of piece \<open>i\<close> is the \<open>i\<close>-th group of 20 bytes of \<open>Pieces\<close>; a piece
  matches when its index is one of the manifest's and the hash of its data is that group.
\<close>

definition piece_hash :: "Info \<Rightarrow> nat \<Rightarrow> byte list" where
  "piece_hash i k = take 20 (drop (20 * k) (Pieces i))"

definition hash_matches :: "lib \<Rightarrow> Info \<Rightarrow> PieceData \<Rightarrow> bool" where
  "hash_matches L i p =
     (unat (Index p) < length (Pieces i) div 20 \<and>
      sha1_Sum L (Data p) = piece_hash i (unat (Index p)))"

text \<open>
  A torrent is allocated on a disk when each file of its manifest exists and has its declared
  length (as \<open>int64\<close>, the way \<open>ReadAt\<close> and \<open>WriteAt\<close> read it). The content of a torrent
  is the concatenation of its files, as they are on the disk, in the order of the manifest.
  The bytes of piece \<open>i\<close> on disk are the \<open>i\<close>-th stretch of \<open>PieceLength\<close> bytes of the
  content (the last one ends with the content), and the piece verifies when their hash is
  the manifest hash of piece \<open>i\<close>.
\<close>

definition allocated_files :: "lib \<Rightarrow> fsTorrent \<Rightarrow> Disk \<Rightarrow> FileInfo list \<Rightarrow> bool" where
  "allocated_files L t d fis =
     list_all (\<lambda>fi. case files d (openfile_name L t fi) of
                       None \<Rightarrow> False
                     | Some c \<Rightarrow> int (length c) = sint (fLength fi)) fis"

definition allocated :: "lib \<Rightarrow> fsTorrent \<Rightarrow> Disk \<Rightarrow> bool" where
  "allocated L t d = allocated_files L t d (GetFiles (Info (meta t)))"

definition content :: "lib \<Rightarrow> fsTorrent \<Rightarrow> Disk \<Rightarrow> FileInfo list \<Rightarrow> byte list" where
  "content L t d fis =
     concat (map (\<lambda>fi. case files d (openfile_name L t fi) of None \<Rightarrow> [] | Some c \<Rightarrow> c) fis)"

text \<open>
  The declared lengths fit when each is below \<open>2 ^ 63\<close>, so that \<open>int64(fi.Length)\<close> is the
  declared length and not a negative number.
\<close>

definition lengths_fit :: "Info \<Rightarrow> bool" where
  "lengths_fit i = list_all (\<lambda>fi. unat (fLength fi) < 2 ^ 63) (GetFiles i)"




subsection \<open>Example manifests\<close>

text \<open>
  Concrete inputs at which the theorems below are evaluated. \<open>hash_len\<close>, \<open>hash_sum\<close> and
  \<open>bencode_pieces\<close> stand for SHA-1 and for the bencoder there: the theorems hold for every
  choice of the two.
\<close>

definition manifest_short :: TorrentFile where
  "manifest_short = \<lparr>Info = \<lparr>PieceLength = 4, Pieces = replicate 20 0, Path = ''a'', Files = [],
      Private = None, Length = 10, Sum = [], MetaVersion = None\<rparr>, Announce = [], AnnounceList = []\<rparr>"

definition manifest_two :: TorrentFile where
  "manifest_two = \<lparr>Info = \<lparr>PieceLength = 4, Pieces = replicate 40 0, Path = ''a'', Files = [],
      Private = None, Length = 6, Sum = [], MetaVersion = None\<rparr>, Announce = [], AnnounceList = []\<rparr>"

definition manifest_meta1 :: TorrentFile where
  "manifest_meta1 = \<lparr>Info = \<lparr>PieceLength = 4, Pieces = replicate 40 0, Path = ''a'', Files = [],
      Private = None, Length = 6, Sum = [], MetaVersion = Some 1\<rparr>, Announce = [], AnnounceList = []\<rparr>"

definition hash_len :: "byte list \<Rightarrow> byte list" where
  "hash_len d = replicate 20 (of_nat (length d))"

definition hash_sum :: "byte list \<Rightarrow> byte list" where
  "hash_sum d = replicate 20 (sum_list d)"

definition bencode_pieces :: "Info \<Rightarrow> byte list" where
  "bencode_pieces i = Pieces i"

subsection \<open>Example torrents\<close>

text \<open>A store with a driver that joins paths with a slash, and torrents on it.\<close>

definition join_slash :: "string \<Rightarrow> string \<Rightarrow> string" where
  "join_slash a b = a @ ''/'' @ b"

definition storage_ex :: FsStorage where
  "storage_ex = \<lparr>DataDir = ''data'', MetaDir = ''meta'', FS_Join = join_slash\<rparr>"

definition torrent_done :: fsTorrent where
  "torrent_done = \<lparr>st = storage_ex, ih = V1 (replicate 20 0), meta = manifest_two,
      bf = Some [True, True]\<rparr>"

definition disk_empty :: Disk where
  "disk_empty = \<lparr>files = Map.empty, bitfields = Map.empty, readonly = {}\<rparr>"

definition path_of :: "string list \<Rightarrow> string" where
  "path_of ps = (case ps of [] \<Rightarrow> [] | p # r \<Rightarrow> foldl join_slash p r)"

definition lib_ex :: lib where
  "lib_ex = \<lparr>sha1_Sum = hash_sum, filepath_Join = path_of\<rparr>"

definition manifest_hashed :: TorrentFile where
  "manifest_hashed = \<lparr>Info = \<lparr>PieceLength = 4, Pieces = replicate 20 10 @ replicate 20 11, Path = ''a'',
      Files = [], Private = None, Length = 6, Sum = [], MetaVersion = None\<rparr>,
      Announce = [], AnnounceList = []\<rparr>"

definition torrent_new :: fsTorrent where
  "torrent_new = \<lparr>st = storage_ex, ih = V1 (replicate 20 0), meta = manifest_hashed,
      bf = Some [False, False]\<rparr>"

definition disk_alloc :: Disk where
  "disk_alloc = \<lparr>files = [''data/a'' \<mapsto> [0, 0, 0, 0, 0, 0]], bitfields = Map.empty, readonly = {}\<rparr>"




definition manifest_multi :: TorrentFile where
  "manifest_multi = \<lparr>Info = \<lparr>PieceLength = 4, Pieces = replicate 40 0, Path = ''t'',
      Files = [\<lparr>fLength = 2, fPath = [''a''], fSum = []\<rparr>, \<lparr>fLength = 3, fPath = [''b''], fSum = []\<rparr>],
      Private = None, Length = 0, Sum = [], MetaVersion = None\<rparr>,
      Announce = [], AnnounceList = []\<rparr>"

definition torrent_multi :: fsTorrent where
  "torrent_multi = \<lparr>st = storage_ex, ih = V1 (replicate 20 0), meta = manifest_multi, bf = None\<rparr>"

definition disk_multi :: Disk where
  "disk_multi = \<lparr>files = [''data/t/a'' \<mapsto> [0, 0], ''data/t/b'' \<mapsto> [0, 0, 0]],
      bitfields = Map.empty, readonly = {}\<rparr>"

definition disk_multi_written :: Disk where
  "disk_multi_written = disk_multi\<lparr>files := (files disk_multi)(''data/t/a'' \<mapsto> [0, 1], ''data/t/b'' \<mapsto> [2, 3, 0])\<rparr>"

definition manifest_dup :: TorrentFile where
  "manifest_dup = \<lparr>Info = \<lparr>PieceLength = 4, Pieces = replicate 20 0, Path = ''t'',
      Files = [\<lparr>fLength = 2, fPath = [''a''], fSum = []\<rparr>, \<lparr>fLength = 2, fPath = [''a''], fSum = []\<rparr>],
      Private = None, Length = 0, Sum = [], MetaVersion = None\<rparr>,
      Announce = [], AnnounceList = []\<rparr>"

definition torrent_dup :: fsTorrent where
  "torrent_dup = \<lparr>st = storage_ex, ih = V1 (replicate 20 0), meta = manifest_dup, bf = None\<rparr>"

definition disk_dup :: Disk where
  "disk_dup = \<lparr>files = [''data/t/a'' \<mapsto> [0, 0]], bitfields = Map.empty, readonly = {}\<rparr>"

definition disk_dup_written :: Disk where
  "disk_dup_written = disk_dup\<lparr>files := (files disk_dup)(''data/t/a'' \<mapsto> [1, 2], ''data/t/a'' \<mapsto> [3, 4])\<rparr>"

section \<open>Peers of a torrent (package swarm)\<close>

text \<open>
  \<open>addPeers\<close> starts one goroutine running \<open>PersistPeer\<close> for each peer it lets through, and
  does not wait for it. The goroutines and \<open>addPeers\<close> share the maps \<open>obconns\<close> and \<open>ibconns\<close>
  of the torrent, each access under \<open>connMtx\<close>. The model is an interleaving of atomic steps:
  a step of \<open>addPeers\<close> is one iteration of its loop, a step of a goroutine goes from one
  access of the shared state (or of the network) to the next.

  Of the maps only the keys matter here (\<open>a.String()\<close> of the remote address). \<open>dials\<close> is
  not a field of the source: it records, in order, the address of every call of
  \<open>t.Network().Dial\<close>.
\<close>

record Torrent =
  obconns :: "string set"
  ibconns :: "string set"
  closing :: bool
  dials :: "string list"

text \<open>
  \<open>common.Peer\<close> is declared outside these files; \<open>addPeers\<close> uses its field \<open>ID\<close> and its
  method \<open>Resolve\<close>, which asks the network. \<open>Resolve\<close> is therefore a field of the network.
\<close>

record Peer =
  IP :: string
  ID :: "byte list"

text \<open>
  What the remote side does with a dial: the dial fails, sending or receiving the handshake
  fails, the handshake arrives with another infohash, or with ours.
\<close>

datatype answer = DialFailed | SendFailed | RecvFailed | Mismatch | Match

text \<open>
  The network: its own address (\<open>Addr().String()\<close>), the resolver, and the answer to a dial
  of an address, which may depend on the dials made before.
\<close>

record Network =
  Addr :: string
  Resolve :: "Peer \<Rightarrow> error + string"
  Dial :: "string list \<Rightarrow> string \<Rightarrow> answer"

definition HasIBConn :: "Torrent \<Rightarrow> string \<Rightarrow> bool" where
  "HasIBConn t a = (a \<in> ibconns t)"

definition HasOBConn :: "Torrent \<Rightarrow> string \<Rightarrow> bool" where
  "HasOBConn t a = (a \<in> obconns t)"

definition addOBPeer :: "Torrent \<Rightarrow> string \<Rightarrow> Torrent" where
  "addOBPeer t a = t\<lparr>obconns := insert a (obconns t)\<rparr>"

text \<open>
  Where a goroutine running \<open>PersistPeer(a, id)\<close> stands: at the test of \<open>t.closing\<close> at the
  head of the loop, before \<open>HasIBConn\<close>, before \<open>HasOBConn\<close>, asleep for a second, in
  \<open>DialPeer\<close> before its own \<open>HasOBConn\<close>, before \<open>Network().Dial\<close>, connected with the
  handshake done and before \<open>addOBPeer\<close>, or returned from \<open>PersistPeer\<close>.
\<close>

datatype place = AtLoop | AtHasIB | AtHasOB | Asleep | InDialPeer | AtDial | Connected | Exited

record goroutine =
  addr :: string
  peer_id :: "byte list"
  triesLeft :: int
  place :: place

text \<open>
  \<open>PersistPeer\<close> starts with ten tries.
\<close>

definition PersistPeer :: "string \<Rightarrow> byte list \<Rightarrow> goroutine" where
  "PersistPeer a i = \<lparr>addr = a, peer_id = i, triesLeft = 10, place = AtLoop\<rparr>"

text \<open>
  \<open>DialPeer\<close> returned the error \<open>err\<close> to \<open>PersistPeer\<close>: on \<open>nil\<close> it returns, otherwise it
  counts the try and returns when none is left.
\<close>

definition after_DialPeer :: "goroutine \<Rightarrow> bool \<Rightarrow> goroutine" where
  "after_DialPeer g failed =
     (if \<not> failed then g\<lparr>place := Exited\<rparr>
      else if triesLeft g - 1 \<le> 0 then g\<lparr>triesLeft := triesLeft g - 1, place := Exited\<rparr>
      else g\<lparr>triesLeft := triesLeft g - 1, place := AtLoop\<rparr>)"

text \<open>
  One step of a goroutine. In \<open>DialPeer\<close> a handshake with another infohash leaves \<open>err\<close>
  \<open>nil\<close>, so \<open>DialPeer\<close> returns \<open>nil\<close> there; only the matching handshake reaches \<open>addOBPeer\<close>.
\<close>

definition PersistPeer_step :: "Network \<Rightarrow> goroutine \<Rightarrow> Torrent \<Rightarrow> goroutine \<times> Torrent" where
  "PersistPeer_step N g t =
     (case place g of
        AtLoop \<Rightarrow> (if closing t then g\<lparr>place := Exited\<rparr> else g\<lparr>place := AtHasIB\<rparr>, t)
      | AtHasIB \<Rightarrow> (if HasIBConn t (addr g) then g\<lparr>place := Exited\<rparr> else g\<lparr>place := AtHasOB\<rparr>, t)
      | AtHasOB \<Rightarrow> (if \<not> HasOBConn t (addr g) then g\<lparr>place := InDialPeer\<rparr> else g\<lparr>place := Asleep\<rparr>, t)
      | Asleep \<Rightarrow> (g\<lparr>place := AtLoop\<rparr>, t)
      | InDialPeer \<Rightarrow> (if HasOBConn t (addr g) then after_DialPeer g False else g\<lparr>place := AtDial\<rparr>, t)
      | AtDial \<Rightarrow>
          (case Dial N (dials t) (addr g) of
             Match \<Rightarrow> g\<lparr>place := Connected\<rparr>
           | Mismatch \<Rightarrow> after_DialPeer g False
           | _ \<Rightarrow> after_DialPeer g True,
           t\<lparr>dials := dials t @ [addr g]\<rparr>)
      | Connected \<Rightarrow> (after_DialPeer g False, addOBPeer t (addr g))
      | Exited \<Rightarrow> (g, t))"

text \<open>
  One iteration of the loop of \<open>addPeers\<close> on the peer \<open>p\<close>: the goroutines it starts (none
  or one).
\<close>

definition addPeers_iter :: "Network \<Rightarrow> Torrent \<Rightarrow> Peer \<Rightarrow> goroutine list" where
  "addPeers_iter N t p =
     (case Resolve N p of
        Inr a \<Rightarrow>
          if a = Addr N then []
          else if HasOBConn t a then []
          else [PersistPeer a (ID p)]
      | Inl e \<Rightarrow> [])"

text \<open>
  The whole loop when no goroutine takes a step before it ends: the goroutines started.
\<close>

definition addPeers :: "Network \<Rightarrow> Torrent \<Rightarrow> Peer list \<Rightarrow> goroutine list" where
  "addPeers N t peers = concat (map (addPeers_iter N t) peers)"

text \<open>
  The torrent with \<open>addPeers\<close> running on the peers left of its list, and the goroutines
  started so far.
\<close>

record swarm =
  torrent :: Torrent
  todo :: "Peer list"
  goroutines :: "goroutine list"

definition start :: "Torrent \<Rightarrow> Peer list \<Rightarrow> swarm" where
  "start t peers = \<lparr>torrent = t, todo = peers, goroutines = []\<rparr>"

text \<open>
  The scheduler takes a number: \<open>0\<close> lets \<open>addPeers\<close> do its next iteration, \<open>k + 1\<close> lets the
  goroutine started as number \<open>k\<close> take a step. A number that names no one does nothing.
\<close>

definition sched_step :: "Network \<Rightarrow> swarm \<Rightarrow> nat \<Rightarrow> swarm" where
  "sched_step N s i =
     (case i of
        0 \<Rightarrow>
          (case todo s of
             [] \<Rightarrow> s
           | p # ps \<Rightarrow> s\<lparr>todo := ps, goroutines := goroutines s @ addPeers_iter N (torrent s) p\<rparr>)
      | Suc k \<Rightarrow>
          if k < length (goroutines s) then
            (case PersistPeer_step N (goroutines s ! k) (torrent s) of
               (g', t') \<Rightarrow> s\<lparr>torrent := t', goroutines := (goroutines s)[k := g']\<rparr>)
          else s)"

definition run :: "Network \<Rightarrow> nat list \<Rightarrow> swarm \<Rightarrow> swarm" where
  "run N sched s = foldl (sched_step N) s sched"

text \<open>
  The invariant of the runs: no goroutine is on our own address, and our own address has
  not been dialed.
\<close>

definition not_self :: "Network \<Rightarrow> swarm \<Rightarrow> bool" where
  "not_self N s = ((\<forall>g \<in> set (goroutines s). addr g \<noteq> Addr N)
                   \<and> Addr N \<notin> set (dials (torrent s)))"

subsection \<open>Example swarm\<close>

text \<open>
  Our address is \<open>me.i2p\<close>; every peer resolves to its \<open>IP\<close>, and every dial is answered with
  the matching handshake. The torrent has no connection and is not closing.
\<close>

definition net_up :: Network where
  "net_up = \<lparr>Addr = ''me.i2p'', Resolve = (\<lambda>p. Inr (IP p)), Dial = (\<lambda>ds a. Match)\<rparr>"

definition torrent_idle :: Torrent where
  "torrent_idle = \<lparr>obconns = {}, ibconns = {}, closing = False, dials = []\<rparr>"

definition peer_b :: Peer where
  "peer_b = \<lparr>IP = ''b.i2p'', ID = []\<rparr>"

section \<open>Properties of the wire codec\<close>

lemma Uint32_PutUint32: "Uint32 (PutUint32 v @ r) = v"
proof (rule bit_word_eqI)
  fix n :: nat
  assume n: "n < LENGTH(32)"
  consider "n < 8" | "8 \<le> n" "n < 16" | "16 \<le> n" "n < 24" | "24 \<le> n"
    by linarith
  then show "bit (Uint32 (PutUint32 v @ r)) n = bit v n"
  proof cases
    case 1 then show ?thesis using n by (simp add: Uint32_def PutUint32_def bit_simps)
  next
    case 2 then show ?thesis using n by (auto simp add: Uint32_def PutUint32_def bit_simps)
  next
    case 3 then show ?thesis using n by (auto simp add: Uint32_def PutUint32_def bit_simps)
  next
    case 4 then show ?thesis using n by (auto simp add: Uint32_def PutUint32_def bit_simps)
  qed
qed

lemma Uint32_PutUint32_only: "Uint32 (PutUint32 v) = v"
  using Uint32_PutUint32 [of v "[]"] by simp

lemma length_PutUint32: "length (PutUint32 v) = 4"
  by (simp add: PutUint32_def)

lemma drop_PutUint32: "drop 4 (PutUint32 v @ r) = r"
  by (simp add: PutUint32_def)

lemma nth4_PutUint32: "(PutUint32 v @ x # r) ! 4 = x"
  by (simp add: PutUint32_def)

lemma MessageID_NewWireMessage: "MessageID (NewWireMessage mid body) = mid"
  by (simp add: MessageID_def NewWireMessage_def length_PutUint32 nth4_PutUint32)

lemma prefix_zero_iff: "(of_nat n :: u32) = 0 \<longleftrightarrow> 2 ^ 32 dvd n"
  using word_of_nat_eq_0_iff [of n, where 'a = 32] by simp

lemma Payload_NewWireMessage:
  "Payload (NewWireMessage mid body)
     = Some (if 2 ^ 32 dvd (length body + 1) then [] else body)"
proof -
  have "(of_nat (length body + 1) :: u32) = 0 \<longleftrightarrow> 2 ^ 32 dvd (length body + 1)"
    by (rule prefix_zero_iff)
  then show ?thesis
    by (simp add: Payload_def Len_def NewWireMessage_def Uint32_PutUint32 length_PutUint32
        word_greater_zero_iff del: of_nat_Suc of_nat_add)
qed

lemma GetPieceRequest_ToWireMessage:
  "GetPieceRequest (PieceRequest_ToWireMessage r) = Some r"
proof -
  have "\<not> (2 :: nat) ^ 32 dvd 13"
    by simp
  then show ?thesis
    by (simp add: GetPieceRequest_def PieceRequest_ToWireMessage_def MessageID_NewWireMessage
        Payload_NewWireMessage length_PutUint32 Uint32_PutUint32 Uint32_PutUint32_only
        drop_PutUint32)
qed

lemma GetPieceData_ToWireMessage:
  "GetPieceData (PieceData_ToWireMessage p)
     = Some (if Data p \<noteq> [] \<and> \<not> 2 ^ 32 dvd (length (Data p) + 9) then p
             else \<lparr>Index = 0, Begin = 0, Data = []\<rparr>)"
proof -
  define body where "body = PutUint32 (Index p) @ PutUint32 (Begin p) @ Data p"
  have l: "length body + 1 = length (Data p) + 9" and l8: "8 < length body \<longleftrightarrow> Data p \<noteq> []"
    by (simp_all add: body_def length_PutUint32)
  have pl: "Payload (NewWireMessage Piece body)
      = Some (if 2 ^ 32 dvd (length (Data p) + 9) then [] else body)"
    by (simp only: Payload_NewWireMessage l)
  have parse: "\<lparr>Index = Uint32 body, Begin = Uint32 (drop 4 body), Data = drop 8 body\<rparr> = p"
    by (simp add: body_def Uint32_PutUint32 drop_PutUint32 length_PutUint32)
  have "GetPieceData (NewWireMessage Piece body)
      = Some (if Data p \<noteq> [] \<and> \<not> 2 ^ 32 dvd (length (Data p) + 9) then p
              else \<lparr>Index = 0, Begin = 0, Data = []\<rparr>)"
    unfolding GetPieceData_def MessageID_NewWireMessage pl
    using l8 parse by simp
  then show ?thesis
    by (simp add: PieceData_ToWireMessage_def body_def)
qed

text \<open>
  C8 (as amended). Parsing the serialised form of a piece request gives the request back,
  for every request. Parsing the serialised form of a piece gives the piece back when its
  data is not empty and the length of its data plus 9 is not a multiple of \<open>2 ^ 32\<close>; for
  every other piece it gives the zero piece (index 0, begin 0, no data). \<open>GetPieceData\<close>
  accepts a payload only if it is longer than the eight bytes of index and begin, and
  \<open>Payload\<close> is empty when the 32-bit length prefix, the length of the data plus 9 modulo
  \<open>2 ^ 32\<close>, is 0. Neither parser panics on a serialised message.
\<close>

theorem wire_parse_serialize:
  "GetPieceRequest (PieceRequest_ToWireMessage r) = Some r \<and>
   GetPieceData (PieceData_ToWireMessage p)
     = Some (if Data p \<noteq> [] \<and> \<not> 2 ^ 32 dvd (length (Data p) + 9) then p
             else \<lparr>Index = 0, Begin = 0, Data = []\<rparr>)"
  by (simp only: GetPieceRequest_ToWireMessage GetPieceData_ToWireMessage simp_thms)

theorem wire_parse_serialize_witness:
  "GetPieceRequest (PieceRequest_ToWireMessage \<lparr>rIndex = 3, rBegin = 16384, rLength = 16384\<rparr>)
     = Some \<lparr>rIndex = 3, rBegin = 16384, rLength = 16384\<rparr> \<and>
   GetPieceData (PieceData_ToWireMessage \<lparr>Index = 3, Begin = 16384, Data = [1, 2, 3]\<rparr>)
     = Some \<lparr>Index = 3, Begin = 16384, Data = [1, 2, 3]\<rparr>"
  using wire_parse_serialize [of "\<lparr>rIndex = 3, rBegin = 16384, rLength = 16384\<rparr>"
      "\<lparr>Index = 3, Begin = 16384, Data = [1, 2, 3]\<rparr>"]
  by simp

text \<open>
  C8 as stated fails for a piece without data: the payload is exactly eight bytes long,
  the check \<open>len(data) > 8\<close> rejects it, and the zero piece comes back instead of index 1.
  It also fails for a piece of \<open>2 ^ 32 - 9\<close> bytes of data: the length prefix
  \<open>uint32(len(body) + 1)\<close> is 0, \<open>Payload\<close> returns \<open>nil\<close>, and the zero piece comes back.
\<close>

theorem GetPieceData_empty_counterexample:
  "GetPieceData (PieceData_ToWireMessage \<lparr>Index = 1, Begin = 0, Data = []\<rparr>)
     = Some \<lparr>Index = 0, Begin = 0, Data = []\<rparr> \<and>
   GetPieceData (PieceData_ToWireMessage \<lparr>Index = 1, Begin = 0, Data = []\<rparr>)
     \<noteq> Some \<lparr>Index = 1, Begin = 0, Data = []\<rparr> \<and>
   GetPieceData (PieceData_ToWireMessage \<lparr>Index = 1, Begin = 0, Data = replicate 4294967287 0\<rparr>)
     = Some \<lparr>Index = 0, Begin = 0, Data = []\<rparr> \<and>
   GetPieceData (PieceData_ToWireMessage \<lparr>Index = 1, Begin = 0, Data = replicate 4294967287 0\<rparr>)
     \<noteq> Some \<lparr>Index = 1, Begin = 0, Data = replicate 4294967287 0\<rparr>"
proof -
  have "(2 :: nat) ^ 32 dvd 4294967287 + 9"
    by simp
  then show ?thesis
    by (simp add: GetPieceData_ToWireMessage)
qed

section \<open>Properties of the wire reader\<close>

lemma Uint32_0001: "Uint32 [0, 0, 0, 1] = 1"
  by (simp add: Uint32_def)

lemma Uint32_0000: "Uint32 [0, 0, 0, 0] = 0"
  by (simp add: Uint32_def)

lemma ReadWireMessages_loop_eof:
  "ReadWireMessages_loop f [0, 0, 0, 0] [] = ([], Returned EOF)"
  by (subst ReadWireMessages_loop.simps) (simp add: ReadFull_def Uint32_0000)

lemma ReadWireMessages_loop_keepalive:
  "ReadWireMessages_loop f [0, 0, 0, 1] [0, 0, 0, 0] = ([], Returned EOF)"
  by (subst ReadWireMessages_loop.simps)
     (simp add: ReadFull_def Uint32_0000 ReadWireMessages_loop_eof)

lemma ReadWireMessages_choke_frame:
  "ReadWireMessages [0, 0, 0, 1, 0, 0, 0, 0, 0] f = ([Discarded 1], Returned EOF)"
  unfolding ReadWireMessages_def
  by (subst ReadWireMessages_loop.simps)
     (simp add: ReadFull_def CopyN_Discard_def Uint32_0001 MaxWireMessageSize_def emit_def
        ReadWireMessages_loop_keepalive)

lemma ReadWireMessages_oversize_frame:
  "ReadWireMessages ([0, 160, 0, 0] @ rest) f = ([], Panicked)"
  unfolding ReadWireMessages_def
  by (subst ReadWireMessages_loop.simps)
     (simp add: ReadFull_def Uint32_def MaxWireMessageSize_def)

text \<open>
  C1 (the code departs from the claim). A stream holding a CHOKE frame, whose length
  \<open>L = 1\<close> is in range, and then a KEEP-ALIVE is read to its end without a single call
  of the handler: the branch \<open>l < MaxWireMessageSize\<close> logs "message too big" and drains
  the body, whatever the handler \<open>f\<close> is. A frame announcing \<open>L = 10 MiB\<close> is not
  drained: it takes the other branch, where the slice \<open>msg[4 : 4+l]\<close> of the fixed
  buffer is out of range, and the reader panics whatever follows in the stream.
\<close>

theorem ReadWireMessages_branches_reversed:
  "ReadWireMessages [0, 0, 0, 1, 0, 0, 0, 0, 0] f = ([Discarded 1], Returned EOF) \<and>
   ReadWireMessages ([0, 160, 0, 0] @ rest) f = ([], Panicked)"
  using ReadWireMessages_choke_frame ReadWireMessages_oversize_frame by (rule conjI)

section \<open>Properties of the manifest\<close>

lemma unat32_lt: "unat (x :: u32) < 2 ^ 32"
  using unsigned_less [of x, where 'a = nat] by simp

lemma unat_ucast_32_64: "unat (ucast (x :: u32) :: u64) = unat x"
proof -
  have "unat x < 2 ^ 64"
    using unat32_lt [of x] by simp
  then show ?thesis
    by (simp add: unsigned_ucast_eq take_bit_nat_eq_self)
qed

lemma unat_ucast_64_32: "unat (w :: u64) < 2 ^ 32 \<Longrightarrow> unat (ucast w :: u32) = unat w"
  by (simp add: unsigned_ucast_eq take_bit_nat_eq_self)

lemma mult32_lt64:
  fixes a b :: nat
  assumes "a < 2 ^ 32" "b < 2 ^ 32"
  shows "a * b < 2 ^ 64"
proof -
  have "a * b < 2 ^ 32 * 2 ^ 32"
    using assms by (intro mult_strict_mono) auto
  then show ?thesis by simp
qed

lemma unat_mult_32_64:
  "unat ((ucast (x :: u32) :: u64) * ucast (y :: u32)) = unat x * unat y"
proof -
  have "unat x * unat y < 2 ^ 64"
    using mult32_lt64 unat32_lt by blast
  then show ?thesis
    by (simp add: unat_mult_lem [THEN iffD1] unat_ucast_32_64)
qed

lemma last_piece_length:
  fixes tf :: TorrentFile
  defines "N \<equiv> unat (NumPieces (Info tf))"
    and "P \<equiv> unat (PieceLength (Info tf))"
    and "T \<equiv> unat (TotalSize tf)"
  assumes N: "1 \<le> N" and lo: "(N - 1) * P < T" and hi: "T \<le> N * P"
  shows "unat (LengthOfPiece tf (NumPieces (Info tf) - 1)) = T - (N - 1) * P"
proof -
  let ?np = "NumPieces (Info tf)" and ?pl = "PieceLength (Info tf)" and ?sz = "TotalSize tf"
  have NP: "unat ((ucast ?np :: u64) * ucast ?pl) = N * P"
    by (simp add: unat_mult_32_64 N_def P_def)
  have le1: "?sz \<le> (ucast ?np :: u64) * ucast ?pl"
    using hi NP by (simp add: word_le_nat_alt T_def)
  have d: "unat ((ucast ?np :: u64) * ucast ?pl - ?sz) = N * P - T"
    using le1 NP by (simp add: unat_sub T_def)
  have NPexp: "N * P = (N - 1) * P + P"
    using N by (cases N) auto
  have dP: "N * P - T \<le> P"
    using lo NPexp by linarith
  have le2: "(ucast ?np :: u64) * ucast ?pl - ?sz \<le> ucast ?pl"
    using dP d by (simp add: word_le_nat_alt unat_ucast_32_64 P_def)
  have l64: "unat ((ucast ?pl :: u64) - ((ucast ?np :: u64) * ucast ?pl - ?sz)) = P - (N * P - T)"
    using le2 d by (simp add: unat_sub unat_ucast_32_64 P_def)
  have val: "P - (N * P - T) = T - (N - 1) * P"
    using lo hi NPexp by linarith
  have small: "P - (N * P - T) < 2 ^ 32"
    using unat32_lt [of ?pl] by (simp add: P_def less_imp_diff_less)
  have "unat (ucast ((ucast ?pl :: u64) - ((ucast ?np :: u64) * ucast ?pl - ?sz)) :: u32)
          = P - (N * P - T)"
    using l64 small by (simp add: unat_ucast_64_32)
  then show ?thesis
    using val by (simp add: LengthOfPiece_def Let_def)
qed

lemma other_piece_length:
  "idx + 1 \<noteq> NumPieces (Info tf) \<Longrightarrow> LengthOfPiece tf idx = PieceLength (Info tf)"
  by (auto simp: LengthOfPiece_def Let_def)

lemma idx_lt: "unat (idx :: u32) + 1 < unat (np :: u32) \<Longrightarrow> idx + 1 \<noteq> np"
proof
  assume a: "unat idx + 1 < unat np" and e: "idx + 1 = np"
  have "unat (idx + 1) \<le> unat idx + 1"
    using unat_plus_if' [of idx 1] by (auto split: if_splits)
  with a e show False by simp
qed

text \<open>
  C6 (as amended). \<open>LengthOfPiece\<close> is the piece length for every index below \<open>N - 1\<close>,
  where \<open>N\<close> is the number of pieces. When the manifest is consistent, that is when the
  total size lies in \<open>((N - 1) * piece_length, N * piece_length]\<close>, the last piece has
  \<open>total - (N - 1) * piece_length\<close> bytes, more than 0 and at most the piece length.
  Nothing ties the number of hashes to the file lengths otherwise.
\<close>

theorem LengthOfPiece_lengths:
  "(unat idx + 1 < unat (NumPieces (Info tf)) \<longrightarrow> LengthOfPiece tf idx = PieceLength (Info tf)) \<and>
   (1 \<le> unat (NumPieces (Info tf)) \<and>
    (unat (NumPieces (Info tf)) - 1) * unat (PieceLength (Info tf)) < unat (TotalSize tf) \<and>
    unat (TotalSize tf) \<le> unat (NumPieces (Info tf)) * unat (PieceLength (Info tf)) \<longrightarrow>
      unat (LengthOfPiece tf (NumPieces (Info tf) - 1))
        = unat (TotalSize tf) - (unat (NumPieces (Info tf)) - 1) * unat (PieceLength (Info tf)) \<and>
      0 < unat (LengthOfPiece tf (NumPieces (Info tf) - 1)) \<and>
      unat (LengthOfPiece tf (NumPieces (Info tf) - 1)) \<le> unat (PieceLength (Info tf)))"
proof (intro conjI impI)
  assume "unat idx + 1 < unat (NumPieces (Info tf))"
  then show "LengthOfPiece tf idx = PieceLength (Info tf)"
    by (simp add: idx_lt other_piece_length)
next
  let ?N = "unat (NumPieces (Info tf))" and ?P = "unat (PieceLength (Info tf))"
    and ?T = "unat (TotalSize tf)"
  assume h: "1 \<le> ?N \<and> (?N - 1) * ?P < ?T \<and> ?T \<le> ?N * ?P"
  then have eq: "unat (LengthOfPiece tf (NumPieces (Info tf) - 1)) = ?T - (?N - 1) * ?P"
    using last_piece_length [of tf] by simp
  have NP: "?N * ?P = (?N - 1) * ?P + ?P"
    using h by (cases ?N) auto
  show "unat (LengthOfPiece tf (NumPieces (Info tf) - 1)) = ?T - (?N - 1) * ?P"
    by (rule eq)
  show "0 < unat (LengthOfPiece tf (NumPieces (Info tf) - 1))"
    using eq h by simp
  show "unat (LengthOfPiece tf (NumPieces (Info tf) - 1)) \<le> ?P"
    using eq h NP by linarith
qed

lemma NumPieces_two: "NumPieces (Info manifest_two) = 2"
  by (simp add: manifest_two_def NumPieces_def)

lemma TotalSize_two: "TotalSize manifest_two = 6"
  by (simp add: manifest_two_def TotalSize_def IsSingleFile_def)

theorem LengthOfPiece_lengths_witness:
  "unat (0 :: u32) + 1 < unat (NumPieces (Info manifest_two)) \<and>
   LengthOfPiece manifest_two 0 = 4 \<and>
   1 \<le> unat (NumPieces (Info manifest_two)) \<and>
   (unat (NumPieces (Info manifest_two)) - 1) * unat (PieceLength (Info manifest_two))
      < unat (TotalSize manifest_two) \<and>
   unat (TotalSize manifest_two)
      \<le> unat (NumPieces (Info manifest_two)) * unat (PieceLength (Info manifest_two)) \<and>
   unat (LengthOfPiece manifest_two 1) = 2"
  using LengthOfPiece_lengths [of 0 manifest_two]
  by (simp add: NumPieces_two TotalSize_two) (simp add: manifest_two_def)

text \<open>
  C6 as stated fails for a manifest whose table of hashes does not fit its content: one
  hash, piece length 4, a single file of 10 bytes. The last (and only) piece is given 10
  bytes, more than the piece length.
\<close>

theorem LengthOfPiece_counterexample:
  "NumPieces (Info manifest_short) = 1 \<and>
   unat (LengthOfPiece manifest_short 0) = 10 \<and>
   \<not> unat (LengthOfPiece manifest_short 0) \<le> unat (PieceLength (Info manifest_short))"
  by (simp add: manifest_short_def NumPieces_def LengthOfPiece_def TotalSize_def IsSingleFile_def)

text \<open>
  C9. Whenever the info dictionary has a \<open>meta version\<close> field, \<open>Infohash\<close> is the
  zero-valued v2 infohash and not the v1 hash of the bencoded dictionary; this includes
  meta version 1, which \<open>IsV1Compat\<close> accepts. Only without the field is it the v1 hash.
\<close>

theorem Infohash_meta_version:
  "(MetaVersion (Info tf) \<noteq> None \<longrightarrow>
      Infohash sha1 bencode n tf = V2 (replicate n 0) \<and>
      Infohash sha1 bencode n tf \<noteq> InfohashV1 sha1 bencode tf) \<and>
   (MetaVersion (Info tf) = Some 1 \<longrightarrow>
      IsV1Compat (Info tf) \<and> Infohash sha1 bencode n tf = V2 (replicate n 0)) \<and>
   (MetaVersion (Info tf) = None \<longrightarrow>
      Infohash sha1 bencode n tf = InfohashV1 sha1 bencode tf)"
  by (auto simp: Infohash_def IsV1Only_def IsV1Compat_def InfohashV1_def InfohashV2_def Let_def)

theorem Infohash_meta_version_witness:
  "MetaVersion (Info manifest_meta1) \<noteq> None \<and>
   MetaVersion (Info manifest_meta1) = Some 1 \<and>
   IsV1Compat (Info manifest_meta1) \<and>
   Infohash hash_len bencode_pieces 32 manifest_meta1 = V2 (replicate 32 0) \<and>
   Infohash hash_len bencode_pieces 32 manifest_meta1 \<noteq> InfohashV1 hash_len bencode_pieces manifest_meta1 \<and>
   MetaVersion (Info manifest_two) = None \<and>
   Infohash hash_len bencode_pieces 32 manifest_two = InfohashV1 hash_len bencode_pieces manifest_two"
proof -
  have h1: "MetaVersion (Info manifest_meta1) = Some 1"
    by (simp add: manifest_meta1_def)
  have h2: "MetaVersion (Info manifest_two) = None"
    by (simp add: manifest_two_def)
  show ?thesis
    using h1 h2 Infohash_meta_version [of manifest_meta1 hash_len bencode_pieces 32]
      Infohash_meta_version [of manifest_two hash_len bencode_pieces 32]
    by (simp add: InfohashV1_def Let_def)
qed

section \<open>Properties of the rarest-piece selection\<close>

lemma rarest_of_None: "rarest_of cnt xs best = None \<longleftrightarrow> xs = [] \<and> best = None"
  by (induction xs arbitrary: best) (auto split: option.splits)

lemma rarest_of_mem:
  "rarest_of cnt xs best = Some k \<Longrightarrow> k \<in> set xs \<or> best = Some k"
  by (induction xs arbitrary: best) (auto split: option.splits if_splits)

lemma rarest_of_min:
  assumes "rarest_of cnt xs best = Some k"
    and "sorted_wrt (<) xs"
    and "\<And>b x. best = Some b \<Longrightarrow> x \<in> set xs \<Longrightarrow> b < x"
    and "j \<in> set xs \<or> best = Some j"
  shows "cnt k \<le> cnt j \<and> (cnt j = cnt k \<longrightarrow> k \<le> j)"
  using assms
proof (induction xs arbitrary: best j)
  case Nil
  then show ?case by simp
next
  case (Cons i rest)
  let ?b = "case best of None \<Rightarrow> Some i | Some b \<Rightarrow> if cnt i < cnt b then Some i else Some b"
  have run: "rarest_of cnt rest ?b = Some k"
    using Cons.prems(1) by simp
  have srt: "sorted_wrt (<) rest" and lt: "\<And>x. x \<in> set rest \<Longrightarrow> i < x"
    using Cons.prems(2) by auto
  have inv: "\<And>b x. ?b = Some b \<Longrightarrow> x \<in> set rest \<Longrightarrow> b < x"
    using Cons.prems(3) lt by (fastforce split: option.splits if_splits)
  show ?case
  proof (cases "j \<in> set rest \<or> ?b = Some j")
    case True
    then show ?thesis
      using Cons.IH [OF run srt inv] by blast
  next
    case False
    from rarest_of_mem [OF run] have k: "k \<in> set rest \<or> ?b = Some k" .
    have "?b \<noteq> None"
      by (simp split: option.splits)
    then obtain c where c: "?b = Some c"
      by blast
    have bi: "\<And>b. best = Some b \<Longrightarrow> b < i"
      using Cons.prems(3) by simp
    have cj: "cnt c \<le> cnt j \<and> (cnt j = cnt c \<longrightarrow> c \<le> j)"
      using False Cons.prems(4) c bi by (fastforce split: option.splits if_splits)
    have kc: "cnt k \<le> cnt c \<and> (cnt c = cnt k \<longrightarrow> k \<le> c)"
      using Cons.IH [OF run srt inv] c by blast
    show ?thesis
      using cj kc by auto
  qed
qed

lemma count_peers_availability:
  "count_peers (List.map_filter (\<lambda>c. c) peers) i = availability peers i"
  by (induction peers) (auto simp: count_peers_def availability_def split: option.splits)

lemma candidates_set:
  "set (filter (\<lambda>i. Has remote i \<and> \<not> (Has bt i \<or> i \<in> set exclude)) [0..<length remote])
     = {j. candidate remote bt exclude j}"
  by (auto simp: candidate_def Has_def)

text \<open>
  C4. When \<open>getRarestPiece\<close> returns an index, the index is a candidate (set in the remote
  bitfield, not set in the local one, not excluded), no candidate has a smaller
  availability, and among the candidates of the same availability it is the lowest.
  It returns nothing exactly when there is no candidate.
\<close>

theorem getRarestPiece_rarest:
  "(getRarestPiece peers bt remote exclude = Some idx \<longrightarrow>
      candidate remote bt exclude idx \<and>
      (\<forall>j. candidate remote bt exclude j \<longrightarrow>
         availability peers idx \<le> availability peers j \<and>
         (availability peers j = availability peers idx \<longrightarrow> idx \<le> j))) \<and>
   (getRarestPiece peers bt remote exclude = None \<longleftrightarrow> (\<forall>j. \<not> candidate remote bt exclude j))"
proof -
  let ?xs = "filter (\<lambda>i. Has remote i \<and> \<not> (Has bt i \<or> i \<in> set exclude)) [0..<length remote]"
  let ?cnt = "count_peers (List.map_filter (\<lambda>c. c) peers)"
  have g: "getRarestPiece peers bt remote exclude = rarest_of ?cnt ?xs None"
    by (simp add: getRarestPiece_def FindRarest_def)
  have srt: "sorted_wrt (<) ?xs"
    by (rule sorted_wrt_filter) simp
  have cnt: "?cnt = availability peers"
    by (rule ext) (rule count_peers_availability)
  have some: "candidate remote bt exclude idx \<and>
      (\<forall>j. candidate remote bt exclude j \<longrightarrow>
         availability peers idx \<le> availability peers j \<and>
         (availability peers j = availability peers idx \<longrightarrow> idx \<le> j))"
    if r: "rarest_of ?cnt ?xs None = Some idx"
  proof (intro conjI allI impI)
    from rarest_of_mem [OF r] have "idx \<in> set ?xs" by simp
    then show "candidate remote bt exclude idx"
      using candidates_set [of remote bt exclude] by blast
  next
    fix j assume "candidate remote bt exclude j"
    then have j: "j \<in> set ?xs \<or> None = Some j"
      using candidates_set [of remote bt exclude] by blast
    have "?cnt idx \<le> ?cnt j \<and> (?cnt j = ?cnt idx \<longrightarrow> idx \<le> j)"
      by (rule rarest_of_min [OF r srt _ j]) simp
    then show "availability peers idx \<le> availability peers j"
      and "availability peers j = availability peers idx \<Longrightarrow> idx \<le> j"
      by (simp_all add: cnt)
  qed
  have none: "rarest_of ?cnt ?xs None = None \<longleftrightarrow> (\<forall>j. \<not> candidate remote bt exclude j)"
  proof -
    have "rarest_of ?cnt ?xs None = None \<longleftrightarrow> set ?xs = {}"
      by (simp only: rarest_of_None set_empty) simp
    then show ?thesis
      using candidates_set [of remote bt exclude] by auto
  qed
  show ?thesis
    using some none by (simp only: g) blast
qed

theorem getRarestPiece_rarest_witness:
  "getRarestPiece [Some [False, True, True], None, Some [False, True, False]]
       [True, False, False] [True, True, True] [] = Some 2 \<and>
   candidate [True, True, True] [True, False, False] [] 2 \<and>
   candidate [True, True, True] [True, False, False] [] 1 \<and>
   availability [Some [False, True, True], None, Some [False, True, False]] 2
     \<le> availability [Some [False, True, True], None, Some [False, True, False]] 1"
proof -
  have h: "getRarestPiece [Some [False, True, True], None, Some [False, True, False]]
       [True, False, False] [True, True, True] [] = Some 2"
    by code_simp
  have c: "candidate [True, True, True] [True, False, False] [] 1"
    by (simp add: candidate_def Has_def)
  show ?thesis
    using h c getRarestPiece_rarest [of "[Some [False, True, True], None, Some [False, True, False]]"
        "[True, False, False]" "[True, True, True]" "[]" 2]
    by simp
qed

section \<open>Properties of the piece store\<close>

lemma unat_of_nat_mult_64:
  "unat ((of_nat c :: u64) * ucast (pl :: u32)) = (c * unat pl) mod 2 ^ 64"
proof -
  have "unat ((of_nat c :: u64) * ucast pl) = (unat (of_nat c :: u64) * unat (ucast pl :: u64)) mod 2 ^ 64"
    by (simp add: unat_word_ariths)
  also have "\<dots> = (c mod 2 ^ 64 * unat pl) mod 2 ^ 64"
    by (simp add: unat_of_nat unat_ucast_32_64)
  also have "\<dots> = (c * unat pl) mod 2 ^ 64"
    by (simp add: mod_mult_left_eq)
  finally show ?thesis .
qed

lemma unat_sub_64: "unat ((a :: u64) - b) = (unat a + 2 ^ 64 - unat b) mod 2 ^ 64"
proof -
  have a: "unat a < 2 ^ 64" and b: "unat b < 2 ^ 64"
    using unsigned_less [of a, where 'a = nat] unsigned_less [of b, where 'a = nat] by simp_all
  show ?thesis
  proof (cases "unat b \<le> unat a")
    case True
    then have e: "unat a + 2 ^ 64 - unat b = (unat a - unat b) + 2 ^ 64"
      by simp
    have "(unat a + 2 ^ 64 - unat b) mod 2 ^ 64 = (unat a - unat b) mod 2 ^ 64"
      by (simp only: e mod_add_self2)
    also have "\<dots> = unat a - unat b"
      using a by (simp add: less_imp_diff_less)
    finally have "(unat a + 2 ^ 64 - unat b) mod 2 ^ 64 = unat a - unat b" .
    moreover have "unat (a - b) = unat a - unat b"
      using True by (simp add: unat_sub_if_size)
    ultimately show ?thesis
      by simp
  next
    case False
    then have "unat a + 2 ^ 64 - unat b < 2 ^ 64"
      using b by simp
    then show ?thesis
      using False by (simp add: unat_sub_if_size word_size)
  qed
qed

lemma CountSet_Completed: "Completed bits \<Longrightarrow> CountSet bits = length bits"
  by (simp add: Completed_def)

text \<open>
  C10. \<open>DownloadRemaining\<close> is the total size minus \<open>CountSet\<close> times the piece length
  in arithmetic modulo \<open>2 ^ 64\<close>. In particular, once every one of the \<open>N\<close> bits is set
  and the content is shorter than \<open>N\<close> whole pieces (the last piece is shorter than the
  piece length), the result is not 0 but \<open>2 ^ 64\<close> minus the missing tail.
\<close>

theorem DownloadRemaining_wraps:
  assumes b: "fsTorrent_Bitfield t d = (t', d', Some bits)"
  shows "\<exists>r. DownloadRemaining t d = Some (t', d', r) \<and>
     unat r = (unat (TotalSize (meta t)) + 2 ^ 64
                 - (CountSet bits * unat (PieceLength (Info (meta t)))) mod 2 ^ 64) mod 2 ^ 64 \<and>
     (Completed bits \<and> length bits = unat (NumPieces (Info (meta t))) \<and>
      unat (TotalSize (meta t)) < length bits * unat (PieceLength (Info (meta t))) \<longrightarrow>
        unat r = 2 ^ 64 - (length bits * unat (PieceLength (Info (meta t))) - unat (TotalSize (meta t)))
        \<and> r \<noteq> 0)"
proof -
  let ?T = "unat (TotalSize (meta t))" and ?P = "unat (PieceLength (Info (meta t)))"
  let ?r = "TotalSize (meta t) - (of_nat (CountSet bits) :: u64) * ucast (PieceLength (Info (meta t)))"
  have run: "DownloadRemaining t d = Some (t', d', ?r)"
    using b by (simp add: DownloadRemaining_def Let_def)
  have val: "unat ?r = (?T + 2 ^ 64 - (CountSet bits * ?P) mod 2 ^ 64) mod 2 ^ 64"
    by (simp only: unat_sub_64 unat_of_nat_mult_64)
  have full: "unat ?r = 2 ^ 64 - (length bits * ?P - ?T) \<and> ?r \<noteq> 0"
    if c: "Completed bits" and n: "length bits = unat (NumPieces (Info (meta t)))"
      and lt: "?T < length bits * ?P"
  proof -
    have "length bits * ?P < 2 ^ 64"
      using n mult32_lt64 unat32_lt by simp
    then have m: "(CountSet bits * ?P) mod 2 ^ 64 = length bits * ?P"
      using c by (simp add: CountSet_Completed)
    have T: "?T < 2 ^ 64"
      using unsigned_less [of "TotalSize (meta t)", where 'a = nat] by simp
    have "?T + 2 ^ 64 - length bits * ?P < 2 ^ 64"
      using lt by simp
    then have u: "unat ?r = ?T + 2 ^ 64 - length bits * ?P"
      using val m by simp
    then have "unat ?r = 2 ^ 64 - (length bits * ?P - ?T)"
      using lt \<open>length bits * ?P < 2 ^ 64\<close> by simp
    moreover have "unat ?r \<noteq> 0"
      using u \<open>length bits * ?P < 2 ^ 64\<close> by simp
    ultimately show ?thesis
      by (metis unat_0)
  qed
  show ?thesis
    using run val full by blast
qed

theorem DownloadRemaining_wraps_witness:
  "fsTorrent_Bitfield torrent_done disk_empty = (torrent_done, disk_empty, Some [True, True]) \<and>
   Completed [True, True] \<and>
   length [True, True] = unat (NumPieces (Info (meta torrent_done))) \<and>
   unat (TotalSize (meta torrent_done)) < length [True, True] * unat (PieceLength (Info (meta torrent_done))) \<and>
   DownloadRemaining torrent_done disk_empty = Some (torrent_done, disk_empty, 18446744073709551614)"
proof -
  have h: "fsTorrent_Bitfield torrent_done disk_empty = (torrent_done, disk_empty, Some [True, True])"
    by (simp add: fsTorrent_Bitfield_def torrent_done_def)
  have c: "Completed [True, True]"
    by (simp add: Completed_def CountSet_def)
  have n: "length [True, True] = unat (NumPieces (Info (meta torrent_done)))"
    by (simp add: torrent_done_def NumPieces_two)
  have l: "unat (TotalSize (meta torrent_done)) < length [True, True] * unat (PieceLength (Info (meta torrent_done)))"
    by (simp add: torrent_done_def TotalSize_two) (simp add: manifest_two_def)
  have T: "TotalSize (meta torrent_done) = 6"
    by (simp add: torrent_done_def TotalSize_two)
  have P: "PieceLength (Info (meta torrent_done)) = 4"
    by (simp add: torrent_done_def manifest_two_def)
  have "DownloadRemaining torrent_done disk_empty
      = Some (torrent_done, disk_empty,
          TotalSize (meta torrent_done)
            - of_nat (CountSet [True, True]) * ucast (PieceLength (Info (meta torrent_done))))"
    by (simp add: DownloadRemaining_def h Let_def)
  then have r: "DownloadRemaining torrent_done disk_empty = Some (torrent_done, disk_empty, 18446744073709551614)"
    by (simp add: T P CountSet_def)
  show ?thesis
    using DownloadRemaining_wraps [OF h] h c n l r by simp
qed

subsection \<open>Reading the content\<close>

lemma wrap64_id:
  assumes "- (2 ^ 63) \<le> x" "x < 2 ^ 63"
  shows "wrap64 x = x"
proof -
  have "signed_take_bit (63 :: nat) x = x"
    using assms by (rule signed_take_bit_int_eq_self)
  moreover have "wrap64 x = signed_take_bit (LENGTH(64) - 1) x"
    unfolding wrap64_def by (rule sint_sbintrunc')
  ultimately show ?thesis
    by simp
qed

lemma sint64_lt: "sint (w :: 64 word) < 2 ^ 63"
  using sint_lt [of w] by simp

lemma sint64_ge: "- (2 ^ 63) \<le> sint (w :: 64 word)"
  using sint_ge [of w] by simp

lemma wrap64_diff:
  assumes "0 \<le> b" "b \<le> a" "a < 2 ^ 63"
  shows "wrap64 (a - b) = a - b"
proof (rule wrap64_id)
  show "- (2 ^ 63) \<le> a - b" using assms by linarith
  show "a - b < 2 ^ 63" using assms by linarith
qed

lemma sint_nonneg_unat:
  assumes "0 \<le> sint (w :: u64)"
  shows "int (unat w) = sint w"
proof -
  have "sint w < 2 ^ 64"
    using sint_lt [of w] by simp
  then have "uint w = sint w"
    using assms by (simp add: uint_sint take_bit_int_eq_self)
  then show ?thesis
    by simp
qed

lemma sint_unat_small:
  assumes "unat (w :: u64) < 2 ^ 63"
  shows "sint w = int (unat w)"
proof -
  have "int (unat w) < int (2 ^ 63)"
    using assms by (simp only: of_nat_less_iff)
  then have lt: "uint w < 2 ^ 63"
    by simp
  have "(0 :: int) < 2 ^ 63"
    by simp
  then have ge: "- (2 ^ 63) \<le> uint w"
    using uint_ge_0 [of w] by linarith
  have "signed_take_bit (63 :: nat) (uint w) = uint w"
    using ge lt by (rule signed_take_bit_int_eq_self)
  moreover have "sint w = signed_take_bit (LENGTH(64) - Suc 0) (uint w)"
    by (rule sint_uint)
  ultimately show ?thesis
    by simp
qed

lemma readFileAt_loop_none: "readFileAt_loop f fil 0 off acc err = (acc, err)"
  by (subst readFileAt_loop.simps) simp

lemma readFileAt_allocated:
  assumes c: "files d (openfile_name L t fi) = Some c"
    and len: "int (length c) = sint (fLength fi)"
    and off: "0 \<le> off" "off < sint (fLength fi)"
  shows "readFileAt L t d fi blen off
           = Some (take (min blen (nat (sint (fLength fi) - off))) (drop (nat off) c), None)"
proof -
  let ?fil = "sint (fLength fi)"
  let ?k = "min blen (nat (?fil - off))"
  have w: "wrap64 (?fil - off) = ?fil - off"
  proof (rule wrap64_diff)
    show "0 \<le> off" by (rule off(1))
    show "off \<le> ?fil" using off(2) by simp
    show "?fil < 2 ^ 63" by (rule sint64_lt)
  qed
  have k: "(if int blen > ?fil - off then nat (?fil - off) else blen) = ?k"
    by (auto simp: min_def)
  have "nat (?fil - off) = length c - nat off"
    using len off by linarith
  then have avail: "?k \<le> length c - nat off"
    by simp
  have "readFileAt L t d fi blen off
      = Some (readFileAt_loop (Some c) ?fil
                (if int blen > ?fil - off then nat (?fil - off) else blen) off [] None)"
    using c off by (simp add: readFileAt_def openfileRead_def OpenFileReadOnly_def Let_def w)
  then have run: "readFileAt L t d fi blen off = Some (readFileAt_loop (Some c) ?fil ?k off [] None)"
    by (simp only: k)
  show ?thesis
  proof (cases "?k = 0")
    case True
    then show ?thesis
      using run by (simp add: readFileAt_loop_none)
  next
    case False
    have r: "File_ReadAt (Some c) ?k off = (take ?k (drop (nat off) c), None)"
      using off avail by (simp add: File_ReadAt_def Let_def)
    have l: "length (take ?k (drop (nat off) c)) = ?k"
      using avail by simp
    have "readFileAt_loop (Some c) ?fil ?k off [] None = (take ?k (drop (nat off) c), None)"
      using False off
      by (subst readFileAt_loop.simps) (simp add: r l readFileAt_loop_none del: length_take)
    then show ?thesis
      using run by simp
  qed
qed

lemma ReadAt_file_past:
  assumes "sint (fLength fi) \<le> off" "0 \<le> sint (fLength fi)" "off < 2 ^ 63"
  shows "ReadAt_file L t d fi blen off acc = NextFile (off - sint (fLength fi)) blen acc"
proof -
  have "wrap64 (off - sint (fLength fi)) = off - sint (fLength fi)"
    using assms(2) assms(1) assms(3) by (rule wrap64_diff)
  then show ?thesis
    using assms(1) by (subst ReadAt_file.simps) simp
qed

lemma ReadAt_file_within:
  assumes c: "files d (openfile_name L t fi) = Some c"
    and len: "int (length c) = sint (fLength fi)"
    and off: "0 \<le> off" "off < sint (fLength fi)"
    and fits: "int blen \<le> sint (fLength fi) - off"
  shows "ReadAt_file L t d fi blen off acc = Return (acc @ take blen (drop (nat off) c), None)"
proof -
  have "blen \<le> nat (sint (fLength fi) - off)"
    using fits by linarith
  then have m: "min blen (nat (sint (fLength fi) - off)) = blen"
    by simp
  have "blen \<le> length c - nat off"
    using fits len off by linarith
  then have l: "length (take blen (drop (nat off) c)) = blen"
    by simp
  show ?thesis
    using off
    by (subst ReadAt_file.simps)
       (simp add: readFileAt_allocated [OF c len off] m l del: length_take)
qed

lemma ReadAt_file_across:
  assumes c: "files d (openfile_name L t fi) = Some c"
    and len: "int (length c) = sint (fLength fi)"
    and off: "0 \<le> off" "off < sint (fLength fi)"
    and more: "int blen > sint (fLength fi) - off"
  shows "ReadAt_file L t d fi blen off acc
           = NextFile 0 (blen - (length c - nat off)) (acc @ drop (nat off) c)"
proof -
  define r where "r = drop (nat off) c"
  define k where "k = length c - nat off"
  have fil0: "0 \<le> sint (fLength fi)"
    using len by linarith
  have "nat (sint (fLength fi) - off) \<le> blen"
    using more by linarith
  then have m: "min blen (nat (sint (fLength fi) - off)) = nat (sint (fLength fi) - off)"
    by simp
  have e: "nat (sint (fLength fi) - off) = length c - nat off"
    using len off by linarith
  have "min blen (length c - nat off) = length c - nat off"
    using m e by simp
  then have "take (min blen (nat (sint (fLength fi) - off))) (drop (nat off) c) = r"
    by (simp add: e r_def)
  then have rd: "readFileAt L t d fi blen off = Some (r, None)"
    using readFileAt_allocated [OF c len off, of blen] by simp
  have l: "length r = k"
    by (simp add: r_def k_def)
  have pos: "k \<noteq> 0" and rest: "blen - k \<noteq> 0"
    using len off more unfolding k_def by linarith+
  have nxt: "off + int k = sint (fLength fi)"
    using len off unfolding k_def by linarith
  have "wrap64 (sint (fLength fi)) = sint (fLength fi)"
    by (rule wrap64_id) (rule sint64_ge, rule sint64_lt)
  then have wr: "wrap64 (off + int k) = sint (fLength fi)"
    by (simp only: nxt)
  have "ReadAt_file L t d fi blen off acc
      = ReadAt_file L t d fi (blen - k) (sint (fLength fi)) (acc @ r)"
    using off(2) pos rest by (subst ReadAt_file.simps) (simp add: rd l wr)
  also have "\<dots> = NextFile (sint (fLength fi) - sint (fLength fi)) (blen - k) (acc @ r)"
    by (rule ReadAt_file_past) (rule order_refl, rule fil0, rule sint64_lt)
  finally show ?thesis
    by (simp add: r_def k_def)
qed

lemma allocated_files_Cons:
  "allocated_files L t d (fi # fis) \<longleftrightarrow>
     (\<exists>c. files d (openfile_name L t fi) = Some c \<and> int (length c) = sint (fLength fi)) \<and>
     allocated_files L t d fis"
  by (auto simp: allocated_files_def split: option.splits)

lemma content_Cons:
  "files d (openfile_name L t fi) = Some c \<Longrightarrow> content L t d (fi # fis) = c @ content L t d fis"
  by (simp add: content_def)

lemma content_Nil: "content L t d [] = []"
  by (simp add: content_def)

lemma ReadAt_files_content:
  assumes "allocated_files L t d fis" "0 \<le> off"
    and "nat off + blen \<le> length (content L t d fis)" "0 < blen"
    and "off < 2 ^ 63"
  shows "ReadAt_files L t d fis blen off acc
           = Some (acc @ take blen (drop (nat off) (content L t d fis)), None)"
  using assms
proof (induction fis arbitrary: blen off acc)
  case Nil
  then show ?case by (simp add: content_Nil)
next
  case (Cons fi fis)
  obtain c where c: "files d (openfile_name L t fi) = Some c"
    and len: "int (length c) = sint (fLength fi)"
    and rest: "allocated_files L t d fis"
    using Cons.prems(1) by (auto simp: allocated_files_Cons)
  have fil0: "0 \<le> sint (fLength fi)"
    using len by linarith
  note C = content_Cons [OF c, of fis]
  let ?C' = "content L t d fis"
  have rng: "nat off + blen \<le> length c + length ?C'"
    using Cons.prems(3) by (simp add: C)
  show ?case
  proof (cases "sint (fLength fi) \<le> off")
    case True
    have o: "0 \<le> off - sint (fLength fi)" using True by simp
    have o2: "off - sint (fLength fi) < 2 ^ 63"
      using fil0 Cons.prems(5) by linarith
    have n: "nat (off - sint (fLength fi)) = nat off - length c"
      using len True by linarith
    have r: "nat (off - sint (fLength fi)) + blen \<le> length ?C'"
      using rng n len True by linarith
    have ge: "length c \<le> nat off"
      using len True by linarith
    have "ReadAt_files L t d (fi # fis) blen off acc
        = ReadAt_files L t d fis blen (off - sint (fLength fi)) acc"
      by (simp add: ReadAt_file_past [OF True fil0 Cons.prems(5)])
    also have "\<dots> = Some (acc @ take blen (drop (nat (off - sint (fLength fi))) ?C'), None)"
      by (rule Cons.IH [OF rest o r Cons.prems(4) o2])
    finally show ?thesis
      using ge by (simp add: C n)
  next
    case False
    then have lt: "off < sint (fLength fi)" by simp
    have ol: "nat off < length c"
      using len lt Cons.prems(2) by linarith
    show ?thesis
    proof (cases "int blen \<le> sint (fLength fi) - off")
      case True
      have b: "blen \<le> length c - nat off"
        using True len Cons.prems(2) by linarith
      have "ReadAt_files L t d (fi # fis) blen off acc
          = Some (acc @ take blen (drop (nat off) c), None)"
        by (simp add: ReadAt_file_within [OF c len Cons.prems(2) lt True])
      then show ?thesis
        using b ol by (simp add: C)
    next
      case False
      then have more: "int blen > sint (fLength fi) - off" by simp
      define k where "k = length c - nat off"
      have kb: "k < blen" and kpos: "0 < k"
        using more len Cons.prems(2) ol unfolding k_def by linarith+
      have r: "nat 0 + (blen - k) \<le> length ?C'"
        using rng kb ol unfolding k_def by simp
      have "ReadAt_files L t d (fi # fis) blen off acc
          = ReadAt_files L t d fis (blen - k) 0 (acc @ drop (nat off) c)"
        by (simp add: ReadAt_file_across [OF c len Cons.prems(2) lt more] k_def)
      also have "\<dots> = Some ((acc @ drop (nat off) c) @ take (blen - k) (drop (nat 0) ?C'), None)"
        using kb by (intro Cons.IH [OF rest _ r]) simp_all
      finally have e: "ReadAt_files L t d (fi # fis) blen off acc
          = Some (acc @ drop (nat off) c @ take (blen - k) ?C', None)"
        by simp
      have "length (drop (nat off) c) = k"
        by (simp add: k_def)
      then have tk: "take blen (drop (nat off) (content L t d (fi # fis)))
          = drop (nat off) c @ take (blen - k) ?C'"
        using ol kb by (simp add: C)
      show ?thesis
        by (simp only: e tk)
    qed
  qed
qed

lemma ReadAt_files_empty:
  assumes "allocated_files L t d fis" "0 \<le> off" "off < 2 ^ 63"
  shows "\<exists>e. ReadAt_files L t d fis 0 off acc = Some (acc, e)"
  using assms
proof (induction fis arbitrary: off)
  case Nil
  then show ?case by simp
next
  case (Cons fi fis)
  obtain c where c: "files d (openfile_name L t fi) = Some c"
    and len: "int (length c) = sint (fLength fi)"
    and rest: "allocated_files L t d fis"
    using Cons.prems(1) by (auto simp: allocated_files_Cons)
  have fil0: "0 \<le> sint (fLength fi)"
    using len by linarith
  show ?case
  proof (cases "sint (fLength fi) \<le> off")
    case True
    have "off - sint (fLength fi) < 2 ^ 63"
      using fil0 Cons.prems(3) by linarith
    then show ?thesis
      using Cons.IH [OF rest, of "off - sint (fLength fi)"] True
      by (simp add: ReadAt_file_past [OF True fil0 Cons.prems(3)])
  next
    case False
    then have lt: "off < sint (fLength fi)" by simp
    then have "int 0 \<le> sint (fLength fi) - off" by simp
    then show ?thesis
      by (simp add: ReadAt_file_within [OF c len Cons.prems(2) lt])
  qed
qed

subsection \<open>Writing the content\<close>

lemma content_cong:
  "(\<And>fi. fi \<in> set fis \<Longrightarrow> files d' (openfile_name L t fi) = files d (openfile_name L t fi))
     \<Longrightarrow> content L t d' fis = content L t d fis"
  by (simp add: content_def cong: map_cong)

lemma allocated_files_cong:
  "(\<And>fi. fi \<in> set fis \<Longrightarrow> files d' (openfile_name L t fi) = files d (openfile_name L t fi))
     \<Longrightarrow> allocated_files L t d' fis = allocated_files L t d fis"
  by (simp add: allocated_files_def list_all_iff)

lemma allocated_content_length:
  "allocated_files L t d fis \<Longrightarrow>
     int (length (content L t d fis)) = (\<Sum>fi\<leftarrow>fis. sint (fLength fi))"
  by (induction fis) (auto simp: allocated_files_Cons content_Cons content_Nil)

lemma length_write_bytes:
  "off + length q \<le> length c \<Longrightarrow> length (write_bytes c off q) = length c"
  by (simp add: write_bytes_def)

lemma write_bytes_inside:
  "off + length q \<le> length c \<Longrightarrow> write_bytes c off q = take off c @ q @ drop (off + length q) c"
  by (simp add: write_bytes_def)

lemma WriteAt_files_within:
  assumes "0 \<le> off" "off < sint (fLength fi)"
  shows "WriteAt_files L t d (fi # fis) p off n =
     (case openfileWrite L t d fi of
        Some e \<Rightarrow> Some (n, d, Some e)
      | None \<Rightarrow>
          (case File_WriteAt d (openfile_name L t fi)
                  (take (if int (length p) > sint (fLength fi) - off
                         then nat (sint (fLength fi) - off) else length p) p) off of
             (n1', d', err) \<Rightarrow>
               (case err of
                  Some e \<Rightarrow> Some (n, d', Some e)
                | None \<Rightarrow>
                    if drop n1' p = [] then Some (n + n1', d', None)
                    else WriteAt_files L t d' fis (drop n1' p) 0 (n + n1'))))"
proof -
  let ?fil = "sint (fLength fi)"
  have w: "wrap64 (?fil - off) = ?fil - off"
  proof (rule wrap64_diff)
    show "0 \<le> off" by (rule assms(1))
    show "off \<le> ?fil" using assms(2) by simp
    show "?fil < 2 ^ 63" by (rule sint64_lt)
  qed
  show ?thesis
    using assms
    by (cases "int (length p) > ?fil - off")
       (simp_all add: Let_def w split: option.splits)
qed

lemma WriteAt_files_past:
  assumes "sint (fLength fi) \<le> off" "0 \<le> sint (fLength fi)" "off < 2 ^ 63"
  shows "WriteAt_files L t d (fi # fis) p off n
           = WriteAt_files L t d fis p (off - sint (fLength fi)) n"
proof -
  have "wrap64 (off - sint (fLength fi)) = off - sint (fLength fi)"
    using assms(2) assms(1) assms(3) by (rule wrap64_diff)
  then show ?thesis
    using assms(1) by (simp add: Let_def)
qed

lemma WriteAt_files_content:
  assumes "allocated_files L t d fis"
    and "distinct (map (openfile_name L t) fis)"
    and "0 \<le> off"
    and "nat off + length p \<le> length (content L t d fis)"
    and "WriteAt_files L t d fis p off n = Some (n', d', None)"
    and "off < 2 ^ 63"
  shows "allocated_files L t d' fis \<and>
         content L t d' fis
           = take (nat off) (content L t d fis) @ p @ drop (nat off + length p) (content L t d fis) \<and>
         n' = n + length p \<and>
         (\<forall>nm. nm \<notin> openfile_name L t ` set fis \<longrightarrow> files d' nm = files d nm)"
  using assms
proof (induction fis arbitrary: d p off n)
  case Nil
  then show ?case by (simp add: content_Nil allocated_files_def)
next
  case (Cons fi fis)
  let ?nm = "openfile_name L t"
  obtain c where c: "files d (?nm fi) = Some c"
    and len: "int (length c) = sint (fLength fi)"
    and rest: "allocated_files L t d fis"
    using Cons.prems(1) by (auto simp: allocated_files_Cons)
  have dist: "distinct (map ?nm fis)" and fresh: "?nm fi \<notin> ?nm ` set fis"
    using Cons.prems(2) by auto
  have fil0: "0 \<le> sint (fLength fi)"
    using len by linarith
  have z63: "(0 :: int) < 2 ^ 63"
    by simp
  note C = content_Cons [OF c, of fis]
  let ?C' = "content L t d fis"
  have rng: "nat off + length p \<le> length c + length ?C'"
    using Cons.prems(4) by (simp add: C)
  show ?case
  proof (cases "sint (fLength fi) \<le> off")
    case True
    have o: "0 \<le> off - sint (fLength fi)" using True by simp
    have o2: "off - sint (fLength fi) < 2 ^ 63"
      using fil0 Cons.prems(6) by linarith
    have ge: "length c \<le> nat off"
      using len True by linarith
    have nn: "nat (off - sint (fLength fi)) = nat off - length c"
      using len True by linarith
    have r: "nat (off - sint (fLength fi)) + length p \<le> length ?C'"
      using rng nn ge by linarith
    have w: "WriteAt_files L t d fis p (off - sint (fLength fi)) n = Some (n', d', None)"
      using Cons.prems(5) by (simp only: WriteAt_files_past [OF True fil0 Cons.prems(6)])
    from Cons.IH [OF rest dist o r w o2]
    have a': "allocated_files L t d' fis"
      and c': "content L t d' fis = take (nat (off - sint (fLength fi))) ?C' @ p
                 @ drop (nat (off - sint (fLength fi)) + length p) ?C'"
      and n': "n' = n + length p"
      and u': "\<forall>nm. nm \<notin> ?nm ` set fis \<longrightarrow> files d' nm = files d nm"
      by simp_all
    have same: "files d' (?nm fi) = Some c"
      using u' fresh c by simp
    have "allocated_files L t d' (fi # fis)"
      using a' same len by (auto simp: allocated_files_Cons)
    moreover have "content L t d' (fi # fis)
        = take (nat off) (content L t d (fi # fis)) @ p
            @ drop (nat off + length p) (content L t d (fi # fis))"
      using ge by (simp add: content_Cons [OF same] C c' nn)
    moreover have "\<forall>nm. nm \<notin> ?nm ` set (fi # fis) \<longrightarrow> files d' nm = files d nm"
      using u' by simp
    ultimately show ?thesis
      using n' by blast
  next
    case False
    then have lt: "off < sint (fLength fi)" by simp
    have ol: "nat off < length c"
      using len lt Cons.prems(3) by linarith
    define n1 where "n1 = (if int (length p) > sint (fLength fi) - off
                            then nat (sint (fLength fi) - off) else length p)"
    define q where "q = take n1 p"
    define c1 where "c1 = write_bytes c (nat off) q"
    define d1 where "d1 = d\<lparr>files := (files d)(?nm fi \<mapsto> c1)\<rparr>"
    have avail: "nat (sint (fLength fi) - off) = length c - nat off"
      using len lt Cons.prems(3) by linarith
    have n1: "n1 = min (length p) (length c - nat off)"
    proof (cases "int (length p) > sint (fLength fi) - off")
      case True
      then have "length c - nat off \<le> length p"
        using avail by linarith
      then show ?thesis
        using True avail by (simp add: n1_def)
    next
      case False
      then have "length p \<le> length c - nat off"
        using avail by linarith
      then show ?thesis
        using False by (simp add: n1_def)
    qed
    have lq: "length q = n1"
      by (simp add: q_def n1)
    have fit: "nat off + length q \<le> length c"
      using ol by (simp add: lq n1)
    have wr: "File_WriteAt d (?nm fi) q off = (n1, d1, None)"
      using Cons.prems(3) c by (simp add: File_WriteAt_def d1_def c1_def lq)
    have unf: "WriteAt_files L t d (fi # fis) p off n =
       (case openfileWrite L t d fi of
          Some e \<Rightarrow> Some (n, d, Some e)
        | None \<Rightarrow>
            (case File_WriteAt d (?nm fi) q off of
               (n1', d', err) \<Rightarrow>
                 (case err of
                    Some e \<Rightarrow> Some (n, d', Some e)
                  | None \<Rightarrow>
                      if drop n1' p = [] then Some (n + n1', d', None)
                      else WriteAt_files L t d' fis (drop n1' p) 0 (n + n1'))))"
      unfolding q_def n1_def by (rule WriteAt_files_within [OF Cons.prems(3) lt])
    have nowr: "openfileWrite L t d fi = None"
    proof (cases "openfileWrite L t d fi")
      case None
      then show ?thesis .
    next
      case (Some e)
      then have "WriteAt_files L t d (fi # fis) p off n = Some (n, d, Some e)"
        by (simp only: unf option.case)
      then show ?thesis
        using Cons.prems(5) by simp
    qed
    have step: "WriteAt_files L t d (fi # fis) p off n
        = (if drop n1 p = [] then Some (n + n1, d1, None)
           else WriteAt_files L t d1 fis (drop n1 p) 0 (n + n1))"
      by (simp only: unf nowr wr option.case prod.case)
    have c1l: "length c1 = length c"
      using fit by (simp add: c1_def length_write_bytes)
    have c1v: "c1 = take (nat off) c @ q @ drop (nat off + n1) c"
      using fit by (simp add: c1_def write_bytes_inside lq)
    have f1: "files d1 (?nm fi) = Some c1"
      by (simp add: d1_def)
    have oth1: "\<And>nm. nm \<noteq> ?nm fi \<Longrightarrow> files d1 nm = files d nm"
      by (simp add: d1_def)
    have same1: "files d1 (?nm fj) = files d (?nm fj)" if "fj \<in> set fis" for fj
    proof -
      have "?nm fj \<in> ?nm ` set fis"
        using that by (rule imageI)
      then have "?nm fj \<noteq> ?nm fi"
        using fresh by metis
      then show ?thesis
        by (rule oth1)
    qed
    have C1: "content L t d1 fis = ?C'"
      by (rule content_cong) (rule same1)
    have "allocated_files L t d1 fis = allocated_files L t d fis"
      by (rule allocated_files_cong) (rule same1)
    then have a1: "allocated_files L t d1 fis"
      using rest by simp
    show ?thesis
    proof (cases "drop n1 p = []")
      case True
      then have pq: "q = p" and n1p: "n1 = length p"
        using n1 by (simp_all add: q_def)
      have res: "n' = n + n1" "d' = d1"
        using Cons.prems(5) step True by simp_all
      have "allocated_files L t d1 (fi # fis)"
        using a1 f1 c1l len by (auto simp: allocated_files_Cons)
      moreover have "content L t d1 (fi # fis)
          = take (nat off) (content L t d (fi # fis)) @ p
              @ drop (nat off + length p) (content L t d (fi # fis))"
        using ol fit by (simp add: content_Cons [OF f1] C C1 c1v pq n1p lq [symmetric])
      moreover have "\<forall>nm. nm \<notin> ?nm ` set (fi # fis) \<longrightarrow> files d1 nm = files d nm"
        using oth1 by simp
      ultimately show ?thesis
        using res n1p by simp
    next
      case False
      then have big: "n1 < length p"
        by simp
      then have n1c: "n1 = length c - nat off"
        using n1 by simp
      have w: "WriteAt_files L t d1 fis (drop n1 p) 0 (n + n1) = Some (n', d', None)"
        using Cons.prems(5) step False by simp
      have r: "nat 0 + length (drop n1 p) \<le> length (content L t d1 fis)"
        using rng big ol by (simp add: C1 n1c)
      from Cons.IH [OF a1 dist _ r w z63]
      have a': "allocated_files L t d' fis"
        and c': "content L t d' fis = drop n1 p @ drop (length p - n1) ?C'"
        and n': "n' = n + n1 + length (drop n1 p)"
        and u': "\<forall>nm. nm \<notin> ?nm ` set fis \<longrightarrow> files d' nm = files d1 nm"
        by (simp_all add: C1)
      have same: "files d' (?nm fi) = Some c1"
        using u' fresh f1 by simp
      have c1full: "c1 = take (nat off) c @ q"
        using c1v by (simp add: n1c)
      have pq: "q @ drop n1 p = p"
        by (simp add: q_def)
      have "allocated_files L t d' (fi # fis)"
        using a' same c1l len by (auto simp: allocated_files_Cons)
      moreover have "content L t d' (fi # fis)
          = take (nat off) (content L t d (fi # fis)) @ p
              @ drop (nat off + length p) (content L t d (fi # fis))"
      proof -
        have "content L t d' (fi # fis) = take (nat off) c @ (q @ drop n1 p) @ drop (length p - n1) ?C'"
          by (simp add: content_Cons [OF same] c' c1full)
        also have "\<dots> = take (nat off) c @ p @ drop (length p - n1) ?C'"
          by (simp only: pq)
        also have "\<dots> = take (nat off) (c @ ?C') @ p @ drop (nat off + length p) (c @ ?C')"
        proof -
          have "length p - n1 = nat off + length p - length c"
            using ol big unfolding n1c by linarith
          then show ?thesis
            using ol big by (simp add: n1c)
        qed
        finally show ?thesis
          by (simp only: C)
      qed
      moreover have "\<forall>nm. nm \<notin> ?nm ` set (fi # fis) \<longrightarrow> files d' nm = files d nm"
        using u' oth1 by simp
      moreover have "n' = n + length p"
        using n' big by simp
      ultimately show ?thesis
        by blast
    qed
  qed
qed

lemma unat_sum_lengths:
  "unat (sum_lengths fs acc) \<le> unat acc + (\<Sum>f\<leftarrow>fs. unat (fLength f))"
proof (induction fs arbitrary: acc)
  case Nil
  then show ?case by simp
next
  case (Cons f fs)
  have "unat (acc + fLength f) \<le> unat acc + unat (fLength f)"
    using unat_plus_if' [of acc "fLength f"] by (auto split: if_splits)
  then show ?case
    using Cons.IH [of "acc + fLength f"] by simp
qed

lemma allocated_sum_unat:
  "allocated_files L t d fis \<Longrightarrow> (\<Sum>f\<leftarrow>fis. unat (fLength f)) = length (content L t d fis)"
proof (induction fis)
  case Nil
  then show ?case by (simp add: content_Nil)
next
  case (Cons fi fis)
  obtain c where c: "files d (openfile_name L t fi) = Some c"
    and len: "int (length c) = sint (fLength fi)"
    and rest: "allocated_files L t d fis"
    using Cons.prems by (auto simp: allocated_files_Cons)
  have "0 \<le> sint (fLength fi)"
    using len by linarith
  then have "unat (fLength fi) = length c"
    using sint_nonneg_unat [of "fLength fi"] len by linarith
  then show ?case
    using Cons.IH [OF rest] by (simp add: content_Cons [OF c])
qed

lemma TotalSize_le_content:
  assumes "allocated L t d"
  shows "unat (TotalSize (meta t)) \<le> length (content L t d (GetFiles (Info (meta t))))"
proof (cases "Length (Info (meta t)) > 0")
  case True
  let ?fi = "\<lparr>fLength = Length (Info (meta t)), fPath = [Path (Info (meta t))], fSum = Sum (Info (meta t))\<rparr>"
  have g: "GetFiles (Info (meta t)) = [?fi]"
    using True by (simp add: GetFiles_def)
  have "(\<Sum>f\<leftarrow>[?fi]. unat (fLength f)) = length (content L t d [?fi])"
    using assms by (intro allocated_sum_unat) (simp add: allocated_def g)
  then show ?thesis
    using True by (simp add: g TotalSize_def IsSingleFile_def)
next
  case False
  then have g: "GetFiles (Info (meta t)) = Files (Info (meta t))"
    by (simp add: GetFiles_def)
  have "unat (sum_lengths (Files (Info (meta t))) 0) \<le> (\<Sum>f\<leftarrow>Files (Info (meta t)). unat (fLength f))"
    using unat_sum_lengths [of "Files (Info (meta t))" 0] by simp
  also have "\<dots> = length (content L t d (Files (Info (meta t))))"
    using assms by (intro allocated_sum_unat) (simp add: allocated_def g)
  finally show ?thesis
    using False by (simp add: g TotalSize_def IsSingleFile_def)
qed

text \<open>
  C3 (as amended). On an allocated torrent whose files have pairwise distinct names, for an
  offset \<open>off \<ge> 0\<close> and a buffer \<open>x\<close> with \<open>off + len(x)\<close> within the total size: if
  \<open>WriteAt\<close> of \<open>x\<close> at \<open>off\<close> reports no error, it has written all of \<open>x\<close>, and
  \<open>ReadAt\<close> into a buffer of the same length at \<open>off\<close> returns and leaves exactly \<open>x\<close> in
  the buffer; when \<open>x\<close> is not empty it returns its length and no error. This covers the
  single-file and the multi-file layout.
\<close>

theorem ReadAt_after_WriteAt:
  assumes alloc: "allocated L t d"
    and dist: "distinct (map (openfile_name L t) (GetFiles (Info (meta t))))"
    and off: "0 \<le> sint off"
    and rng: "nat (sint off) + length x \<le> unat (TotalSize (meta t))"
    and w: "WriteAt L t d x off = Some (n, d', None)"
    and b: "length b = length x"
  shows "(\<exists>m e. ReadAt L t d' b off = Some (m, x, e)) \<and> n = length x \<and>
         (x \<noteq> [] \<longrightarrow> ReadAt L t d' b off = Some (length x, x, None))"
proof -
  let ?fis = "GetFiles (Info (meta t))"
  let ?C = "content L t d ?fis"
  let ?o = "sint off"
  have o63: "?o < 2 ^ 63"
    by (rule sint64_lt)
  have a: "allocated_files L t d ?fis"
    using alloc by (simp add: allocated_def)
  have r: "nat ?o + length x \<le> length ?C"
    using rng TotalSize_le_content [OF alloc] by linarith
  have w': "WriteAt_files L t d ?fis x ?o 0 = Some (n, d', None)"
    using w by (simp add: WriteAt_def)
  from WriteAt_files_content [OF a dist off r w' o63]
  have a': "allocated_files L t d' ?fis"
    and c': "content L t d' ?fis = take (nat ?o) ?C @ x @ drop (nat ?o + length x) ?C"
    and n: "n = length x"
    by simp_all
  have lo: "nat ?o \<le> length ?C"
    using r by simp
  have rt: "take (length x) (drop (nat ?o) (content L t d' ?fis)) = x"
    using lo by (simp add: c')
  have r': "nat ?o + length x \<le> length (content L t d' ?fis)"
    using r lo by (simp add: c')
  have full: "ReadAt L t d' b off = Some (length x, x, None)" if "x \<noteq> []"
  proof -
    have "0 < length b"
      using that b by simp
    then have "ReadAt_files L t d' ?fis (length b) ?o []
        = Some ([] @ take (length b) (drop (nat ?o) (content L t d' ?fis)), None)"
      using r' b o63 by (intro ReadAt_files_content [OF a' off]) simp_all
    then show ?thesis
      using rt b by (simp add: ReadAt_def)
  qed
  have "\<exists>m e. ReadAt L t d' b off = Some (m, x, e)"
  proof (cases "x = []")
    case True
    then have e: "b = []" using b by simp
    obtain e' where "ReadAt_files L t d' ?fis 0 ?o [] = Some ([], e')"
      using ReadAt_files_empty [OF a' off o63, of "[]"] by blast
    then show ?thesis
      using True e by (simp add: ReadAt_def)
  next
    case False
    then show ?thesis
      using full by simp
  qed
  then show ?thesis
    using n full by simp
qed

lemma GetFiles_multi:
  "GetFiles (Info (meta torrent_multi))
     = [\<lparr>fLength = 2, fPath = [''a''], fSum = []\<rparr>, \<lparr>fLength = 3, fPath = [''b''], fSum = []\<rparr>]"
  by (simp add: GetFiles_def torrent_multi_def manifest_multi_def)

lemma names_multi:
  "openfile_name lib_ex torrent_multi \<lparr>fLength = 2, fPath = [''a''], fSum = []\<rparr> = ''data/t/a''"
  "openfile_name lib_ex torrent_multi \<lparr>fLength = 3, fPath = [''b''], fSum = []\<rparr> = ''data/t/b''"
  by (simp_all add: openfile_name_def torrent_multi_def manifest_multi_def IsSingleFile_def
      storage_ex_def join_slash_def lib_ex_def path_of_def FilePath_def)

lemma allocated_multi: "allocated lib_ex torrent_multi disk_multi"
  by (simp add: allocated_def allocated_files_def GetFiles_multi names_multi disk_multi_def)

lemma distinct_multi:
  "distinct (map (openfile_name lib_ex torrent_multi) (GetFiles (Info (meta torrent_multi))))"
  by (simp add: GetFiles_multi names_multi)

lemma TotalSize_multi: "TotalSize (meta torrent_multi) = 5"
  by (simp add: TotalSize_def IsSingleFile_def torrent_multi_def manifest_multi_def)

lemma wrap64_small: "wrap64 0 = 0" "wrap64 1 = 1" "wrap64 2 = 2" "wrap64 3 = 3" "wrap64 4 = 4"
  by (simp_all add: wrap64_def)

lemma sint_small: "sint (2 :: 64 word) = 2" "sint (3 :: 64 word) = 3" "sint (4 :: 64 word) = 4"
  "sint (6 :: 64 word) = 6"
  by simp_all

lemma WriteAt_multi:
  "WriteAt lib_ex torrent_multi disk_multi [1, 2, 3] 1 = Some (3, disk_multi_written, None)"
  by (simp add: WriteAt_def GetFiles_multi names_multi Let_def openfileWrite_def wrap64_small
      OpenFileWriteOnly_def File_WriteAt_def write_bytes_def disk_multi_def disk_multi_written_def)

theorem ReadAt_after_WriteAt_witness:
  "allocated lib_ex torrent_multi disk_multi \<and>
   distinct (map (openfile_name lib_ex torrent_multi) (GetFiles (Info (meta torrent_multi)))) \<and>
   0 \<le> sint (1 :: int64) \<and>
   nat (sint (1 :: int64)) + length [1, 2, 3 :: byte] \<le> unat (TotalSize (meta torrent_multi)) \<and>
   WriteAt lib_ex torrent_multi disk_multi [1, 2, 3] 1 = Some (3, disk_multi_written, None) \<and>
   length [0, 0, 0 :: byte] = length [1, 2, 3 :: byte] \<and>
   [1, 2, 3 :: byte] \<noteq> [] \<and>
   ReadAt lib_ex torrent_multi disk_multi_written [0, 0, 0] 1 = Some (3, [1, 2, 3], None)"
proof -
  have h3: "0 \<le> sint (1 :: int64)" by simp
  have h4: "nat (sint (1 :: int64)) + length [1, 2, 3 :: byte] \<le> unat (TotalSize (meta torrent_multi))"
    by (simp add: TotalSize_multi)
  have h6: "length [0, 0, 0 :: byte] = length [1, 2, 3 :: byte]" by simp
  show ?thesis
    using ReadAt_after_WriteAt [OF allocated_multi distinct_multi h3 h4 WriteAt_multi h6]
      allocated_multi distinct_multi h3 h4 WriteAt_multi
    by simp
qed

lemma GetFiles_dup:
  "GetFiles (Info (meta torrent_dup))
     = [\<lparr>fLength = 2, fPath = [''a''], fSum = []\<rparr>, \<lparr>fLength = 2, fPath = [''a''], fSum = []\<rparr>]"
  by (simp add: GetFiles_def torrent_dup_def manifest_dup_def)

lemma name_dup:
  "openfile_name lib_ex torrent_dup \<lparr>fLength = 2, fPath = [''a''], fSum = []\<rparr> = ''data/t/a''"
  by (simp add: openfile_name_def torrent_dup_def manifest_dup_def IsSingleFile_def
      storage_ex_def join_slash_def lib_ex_def path_of_def FilePath_def)

lemma allocated_dup: "allocated lib_ex torrent_dup disk_dup"
  by (simp add: allocated_def allocated_files_def GetFiles_dup name_dup disk_dup_def)

lemma TotalSize_dup: "TotalSize (meta torrent_dup) = 4"
  by (simp add: TotalSize_def IsSingleFile_def torrent_dup_def manifest_dup_def)

lemma WriteAt_dup:
  "WriteAt lib_ex torrent_dup disk_dup [1, 2, 3, 4] 0 = Some (4, disk_dup_written, None)"
  by (simp add: WriteAt_def GetFiles_dup name_dup Let_def openfileWrite_def wrap64_small
      OpenFileWriteOnly_def File_WriteAt_def write_bytes_def disk_dup_def disk_dup_written_def)

lemma content_dup_written:
  "allocated_files lib_ex torrent_dup disk_dup_written (GetFiles (Info (meta torrent_dup)))"
  "content lib_ex torrent_dup disk_dup_written (GetFiles (Info (meta torrent_dup))) = [3, 4, 3, 4]"
  by (simp_all add: allocated_files_def content_def GetFiles_dup name_dup disk_dup_written_def)

lemma ReadAt_dup:
  "ReadAt lib_ex torrent_dup disk_dup_written [0, 0, 0, 0] 0 = Some (4, [3, 4, 3, 4], None)"
proof -
  have "ReadAt_files lib_ex torrent_dup disk_dup_written (GetFiles (Info (meta torrent_dup)))
          (length [0, 0, 0, 0 :: byte]) 0 []
      = Some ([] @ take (length [0, 0, 0, 0 :: byte])
           (drop (nat 0) (content lib_ex torrent_dup disk_dup_written (GetFiles (Info (meta torrent_dup))))),
         None)"
    by (rule ReadAt_files_content [OF content_dup_written(1)]) (simp_all add: content_dup_written(2))
  then show ?thesis
    by (simp add: ReadAt_def content_dup_written(2))
qed

text \<open>
  C3 as stated fails where two entries of the file list resolve to the same file name:
  the manifest lists the file \<open>a\<close> of 2 bytes twice, the file on disk has its declared
  length, and 4 bytes written at offset 0 fit the total size of 4. Both halves are written
  to the one file, the second over the first, and the read returns the second half twice.
\<close>

theorem ReadAt_after_WriteAt_counterexample:
  "allocated lib_ex torrent_dup disk_dup \<and>
   0 \<le> sint (0 :: int64) \<and>
   nat (sint (0 :: int64)) + length [1, 2, 3, 4 :: byte] \<le> unat (TotalSize (meta torrent_dup)) \<and>
   WriteAt lib_ex torrent_dup disk_dup [1, 2, 3, 4] 0 = Some (4, disk_dup_written, None) \<and>
   ReadAt lib_ex torrent_dup disk_dup_written [0, 0, 0, 0] 0 = Some (4, [3, 4, 3, 4], None) \<and>
   [3, 4, 3, 4] \<noteq> [1, 2, 3, 4 :: byte]"
  by (simp add: allocated_dup TotalSize_dup WriteAt_dup ReadAt_dup)

subsection \<open>Storing a piece\<close>

lemma unat_NumPieces:
  assumes "length (Pieces i) < 2 ^ 32"
  shows "unat (NumPieces i) = length (Pieces i) div 20"
proof -
  have "length (Pieces i) div 20 < 2 ^ 32"
    using assms div_le_dividend [of "length (Pieces i)" 20] by linarith
  then show ?thesis
    by (simp add: NumPieces_def unat_of_nat)
qed

lemma CheckPiece_hash:
  assumes n: "length (Pieces i) < 2 ^ 32"
  shows "CheckPiece sha i p =
     Some (unat (Index p) < length (Pieces i) div 20 \<and>
           sha (Data p) = piece_hash i (unat (Index p)))"
proof (cases "unat (Index p) < length (Pieces i) div 20")
  case False
  then have "\<not> NumPieces i > Index p"
    using unat_NumPieces [OF n] by (simp add: word_less_nat_alt)
  then show ?thesis
    using False by (simp add: CheckPiece_def Let_def)
next
  case True
  then have gt: "NumPieces i > Index p"
    using unat_NumPieces [OF n] by (simp add: word_less_nat_alt)
  have bound: "unat (Index p) * 20 + 20 \<le> length (Pieces i)"
    using True by simp
  then have small: "unat (Index p) * 20 + 20 < 2 ^ 32"
    using n by simp
  have "unat (Index p) * unat (20 :: u32) < 2 ^ LENGTH(32)"
    using small by simp
  then have m: "unat (Index p * 20) = unat (Index p) * 20"
    using unat_mult_lem [of "Index p" 20] by simp
  have "unat (Index p * 20) + unat (20 :: u32) < 2 ^ LENGTH(32)"
    using small m by simp
  then have a: "unat (Index p * 20 + 20) = unat (Index p) * 20 + 20"
    using unat_add_lem [of "Index p * 20" 20] m by simp
  have "go_slice (Pieces i) (unat (Index p * 20)) (unat (Index p * 20 + 20))
          = Some (piece_hash i (unat (Index p)))"
    using bound by (simp add: go_slice_def m a piece_hash_def mult.commute)
  then show ?thesis
    using gt True by (simp add: CheckPiece_def Let_def)
qed

lemma checkPiece_hash:
  assumes "length (Pieces (Info (meta t))) < 2 ^ 32"
  shows "checkPiece L t pc =
     Some (if hash_matches L (Info (meta t)) pc then None else Some ErrInvalidPiece)"
  using CheckPiece_hash [OF assms, of "sha1_Sum L" pc]
  by (simp add: checkPiece_def hash_matches_def)

lemma Has_Set: "i < length b \<Longrightarrow> Has (Set b i) i"
  by (simp add: Has_def Set_def)

lemma File_WriteAt_nonneg:
  "0 \<le> off \<Longrightarrow> \<exists>d1. File_WriteAt d nm q off = (length q, d1, None)"
  by (simp add: File_WriteAt_def Let_def)

lemma WriteAt_files_returns:
  assumes "list_all (\<lambda>fi. 0 \<le> sint (fLength fi)) fis" "0 \<le> off" "off < 2 ^ 63"
  shows "\<exists>r. WriteAt_files L t d fis p off n = Some r"
  using assms
proof (induction fis arbitrary: d p off n)
  case Nil
  then show ?case by simp
next
  case (Cons fi fis)
  have fil0: "0 \<le> sint (fLength fi)"
    and rest: "list_all (\<lambda>fi. 0 \<le> sint (fLength fi)) fis"
    using Cons.prems(1) by simp_all
  have z63: "(0 :: int) < 2 ^ 63"
    by simp
  show ?case
  proof (cases "sint (fLength fi) \<le> off")
    case True
    have o: "0 \<le> off - sint (fLength fi)"
      using True by simp
    have o2: "off - sint (fLength fi) < 2 ^ 63"
      using fil0 Cons.prems(3) by linarith
    show ?thesis
      using Cons.IH [OF rest o o2]
      by (simp only: WriteAt_files_past [OF True fil0 Cons.prems(3)])
  next
    case False
    then have lt: "off < sint (fLength fi)"
      by simp
    define q where "q = take (if int (length p) > sint (fLength fi) - off
                               then nat (sint (fLength fi) - off) else length p) p"
    obtain d1 where wr: "File_WriteAt d (openfile_name L t fi) q off = (length q, d1, None)"
      using File_WriteAt_nonneg [OF Cons.prems(2)] by blast
    have unf: "WriteAt_files L t d (fi # fis) p off n =
       (case openfileWrite L t d fi of
          Some e \<Rightarrow> Some (n, d, Some e)
        | None \<Rightarrow>
            (case File_WriteAt d (openfile_name L t fi) q off of
               (n1', d', err) \<Rightarrow>
                 (case err of
                    Some e \<Rightarrow> Some (n, d', Some e)
                  | None \<Rightarrow>
                      if drop n1' p = [] then Some (n + n1', d', None)
                      else WriteAt_files L t d' fis (drop n1' p) 0 (n + n1'))))"
      unfolding q_def by (rule WriteAt_files_within [OF Cons.prems(2) lt])
    show ?thesis
    proof (cases "openfileWrite L t d fi")
      case (Some e)
      then show ?thesis
        by (simp only: unf option.case) simp
    next
      case None
      have step: "WriteAt_files L t d (fi # fis) p off n
          = (if drop (length q) p = [] then Some (n + length q, d1, None)
             else WriteAt_files L t d1 fis (drop (length q) p) 0 (n + length q))"
        by (simp only: unf None wr option.case prod.case)
      show ?thesis
      proof (cases "drop (length q) p = []")
        case True
        then show ?thesis
          by (simp only: step if_True) simp
      next
        case False
        then show ?thesis
          using Cons.IH [OF rest order_refl z63, of d1 "drop (length q) p" "n + length q"]
          by (simp only: step if_False)
      qed
    qed
  qed
qed

lemma lengths_fit_sint:
  assumes "lengths_fit i"
  shows "list_all (\<lambda>fi. 0 \<le> sint (fLength fi)) (GetFiles i)"
proof -
  have "0 \<le> sint (fLength fi)" if "unat (fLength fi) < 2 ^ 63" for fi :: FileInfo
    using sint_unat_small [OF that] by simp
  then show ?thesis
    using assms by (auto simp: lengths_fit_def list_all_iff)
qed

lemma piece_offset_value:
  assumes "unat sz * unat idx < 2 ^ 63"
  shows "sint (piece_offset 0 sz idx) = int (unat sz * unat idx)"
proof -
  have "unat (piece_offset 0 sz idx) = unat sz * unat idx"
    by (simp add: piece_offset_def unat_mult_32_64)
  then show ?thesis
    using sint_unat_small [of "piece_offset 0 sz idx"] assms by simp
qed

text \<open>
  C2. With the bitfield loaded and of the manifest's length, on a manifest whose sizes fit
  the \<open>int64\<close> offsets of the store (each declared file length is below \<open>2 ^ 63\<close>, and so is
  the offset of every piece), \<open>PutPiece\<close> returns, and it succeeds exactly when the SHA-1 of
  the data is the manifest's hash for the piece's index and the write of the content
  reports no error. After a success the bit of the index is set; after a failure the
  bitfield is the one before. (The table of hashes is shorter than \<open>2 ^ 32\<close> bytes, so that
  the \<open>uint32\<close> offset into it does not wrap.)
\<close>

theorem PutPiece_bitfield:
  assumes n: "length (Pieces (Info (meta t))) < 2 ^ 32"
    and b: "bf t = Some b"
    and len: "length b = unat (NumPieces (Info (meta t)))"
    and fits: "lengths_fit (Info (meta t))"
    and span: "unat (PieceLength (Info (meta t))) * (length (Pieces (Info (meta t))) div 20) \<le> 2 ^ 63"
  shows "\<exists>t' d' err. PutPiece L t d pc = Some (t', d', err) \<and>
     (err = None \<longleftrightarrow>
        hash_matches L (Info (meta t)) pc \<and>
        (\<exists>k. WriteAt L t d (Data pc)
                (piece_offset 0 (PieceLength (Info (meta t))) (Index pc)) = Some (k, d', None))) \<and>
     (err = None \<longrightarrow> (\<exists>b'. bf t' = Some b' \<and> Has b' (unat (Index pc)))) \<and>
     (err \<noteq> None \<longrightarrow> bf t' = bf t)"
proof (cases "hash_matches L (Info (meta t)) pc")
  case False
  then have "PutPiece L t d pc = Some (t, d, Some ErrInvalidPiece)"
    by (simp add: PutPiece_def checkPiece_hash [OF n])
  then show ?thesis
    using False by simp
next
  case True
  let ?pl = "PieceLength (Info (meta t))"
  let ?off = "piece_offset 0 ?pl (Index pc)"
  have idx: "unat (Index pc) < length (Pieces (Info (meta t))) div 20"
    using True by (simp add: hash_matches_def)
  have small: "unat ?pl * unat (Index pc) < 2 ^ 63"
  proof (cases "unat ?pl = 0")
    case True
    then show ?thesis by simp
  next
    case False
    then have "unat ?pl * unat (Index pc) < unat ?pl * (length (Pieces (Info (meta t))) div 20)"
      using idx by simp
    then show ?thesis
      using span by linarith
  qed
  have o: "0 \<le> sint ?off"
    using piece_offset_value [OF small] by simp
  have "\<exists>r. WriteAt_files L t d (GetFiles (Info (meta t))) (Data pc) (sint ?off) 0 = Some r"
    using lengths_fit_sint [OF fits] o sint64_lt by (rule WriteAt_files_returns)
  then obtain k d' werr where w: "WriteAt L t d (Data pc) ?off = Some (k, d', werr)"
    by (auto simp: WriteAt_def)
  show ?thesis
  proof (cases werr)
    case (Some e)
    then have "PutPiece L t d pc = Some (t, d', Some e)"
      using True w by (simp add: PutPiece_def checkPiece_hash [OF n] Let_def)
    then show ?thesis
      using w Some by simp
  next
    case None
    then have run: "PutPiece L t d pc = Some (t\<lparr>bf := Some (Set b (unat (Index pc)))\<rparr>, d', None)"
      using True w b by (simp add: PutPiece_def checkPiece_hash [OF n] Let_def)
    have "unat (Index pc) < length b"
      using True len unat_NumPieces [OF n] by (simp add: hash_matches_def)
    then have "Has (Set b (unat (Index pc))) (unat (Index pc))"
      by (rule Has_Set)
    then show ?thesis
      using run w None True by simp
  qed
qed

lemma NumPieces_hashed: "NumPieces (Info manifest_hashed) = 2"
  by (simp add: manifest_hashed_def NumPieces_def)

lemma name_ex:
  "openfile_name lib_ex torrent_new \<lparr>fLength = 6, fPath = [''a''], fSum = []\<rparr> = ''data/a''"
  by (simp add: openfile_name_def torrent_new_def manifest_hashed_def IsSingleFile_def storage_ex_def
      join_slash_def lib_ex_def path_of_def)

lemma GetFiles_new:
  "GetFiles (Info (meta torrent_new)) = [\<lparr>fLength = 6, fPath = [''a''], fSum = []\<rparr>]"
  by (simp add: GetFiles_def torrent_new_def manifest_hashed_def)

lemma WriteAt_ex:
  "WriteAt lib_ex torrent_new disk_alloc [1, 2, 3, 4] 0
     = Some (4, disk_alloc\<lparr>files := [''data/a'' \<mapsto> [1, 2, 3, 4, 0, 0]]\<rparr>, None)"
  by (simp add: WriteAt_def GetFiles_new Let_def openfileWrite_def OpenFileWriteOnly_def name_ex
      File_WriteAt_def write_bytes_def disk_alloc_def sint_small wrap64_def)

lemma checkPiece_ex:
  "checkPiece lib_ex torrent_new \<lparr>Index = 0, Begin = 0, Data = [1, 2, 3, 4]\<rparr> = Some None"
  by (simp add: checkPiece_def CheckPiece_def torrent_new_def NumPieces_hashed go_slice_def
      lib_ex_def hash_sum_def)
     (simp add: manifest_hashed_def)

theorem PutPiece_bitfield_witness:
  "length (Pieces (Info (meta torrent_new))) < 2 ^ 32 \<and>
   bf torrent_new = Some [False, False] \<and>
   length [False, False] = unat (NumPieces (Info (meta torrent_new))) \<and>
   lengths_fit (Info (meta torrent_new)) \<and>
   unat (PieceLength (Info (meta torrent_new))) * (length (Pieces (Info (meta torrent_new))) div 20)
     \<le> 2 ^ 63 \<and>
   PutPiece lib_ex torrent_new disk_alloc \<lparr>Index = 0, Begin = 0, Data = [1, 2, 3, 4]\<rparr>
     = Some (torrent_new\<lparr>bf := Some [True, False]\<rparr>,
             disk_alloc\<lparr>files := [''data/a'' \<mapsto> [1, 2, 3, 4, 0, 0]]\<rparr>, None) \<and>
   hash_matches lib_ex (Info (meta torrent_new)) \<lparr>Index = 0, Begin = 0, Data = [1, 2, 3, 4]\<rparr> \<and>
   Has [True, False] 0"
proof -
  have h1: "length (Pieces (Info (meta torrent_new))) < 2 ^ 32"
    by (simp add: torrent_new_def manifest_hashed_def)
  have h2: "bf torrent_new = Some [False, False]"
    by (simp add: torrent_new_def)
  have h3: "length [False, False] = unat (NumPieces (Info (meta torrent_new)))"
    by (simp add: torrent_new_def NumPieces_hashed)
  have h4: "lengths_fit (Info (meta torrent_new))"
    by (simp add: lengths_fit_def GetFiles_new)
  have h5: "unat (PieceLength (Info (meta torrent_new)))
      * (length (Pieces (Info (meta torrent_new))) div 20) \<le> 2 ^ 63"
    by (simp add: torrent_new_def manifest_hashed_def)
  have off: "piece_offset 0 (PieceLength (Info (meta torrent_new))) 0 = 0"
    by (simp add: piece_offset_def)
  have run: "PutPiece lib_ex torrent_new disk_alloc \<lparr>Index = 0, Begin = 0, Data = [1, 2, 3, 4]\<rparr>
     = Some (torrent_new\<lparr>bf := Some [True, False]\<rparr>,
             disk_alloc\<lparr>files := [''data/a'' \<mapsto> [1, 2, 3, 4, 0, 0]]\<rparr>, None)"
    by (simp add: PutPiece_def checkPiece_ex off WriteAt_ex h2 Set_def Let_def)
  show ?thesis
    using PutPiece_bitfield [OF h1 h2 h3 h4 h5, of lib_ex disk_alloc
        "\<lparr>Index = 0, Begin = 0, Data = [1, 2, 3, 4]\<rparr>"] run h1 h2 h3 h4 h5
    by (simp add: off WriteAt_ex)
qed

subsection \<open>Verifying the stored pieces\<close>




































section \<open>Properties of the peers of a torrent\<close>

lemma PersistPeer_step_addr: "addr (fst (PersistPeer_step N g t)) = addr g"
  by (simp add: PersistPeer_step_def after_DialPeer_def split: place.splits answer.splits)

lemma PersistPeer_step_dials:
  "set (dials (snd (PersistPeer_step N g t))) \<subseteq> insert (addr g) (set (dials t))"
  by (auto simp add: PersistPeer_step_def addOBPeer_def split: place.splits)

lemma addPeers_iter_addr: "g \<in> set (addPeers_iter N t p) \<Longrightarrow> addr g \<noteq> Addr N"
  by (auto simp add: addPeers_iter_def PersistPeer_def split: sum.splits if_splits)

lemma addPeers_iter_connected:
  "Resolve N p = Inr a \<Longrightarrow> HasOBConn t a \<Longrightarrow> addPeers_iter N t p = []"
  by (simp add: addPeers_iter_def)

lemma addPeers_iter_self:
  "Resolve N p = Inr (Addr N) \<Longrightarrow> addPeers_iter N t p = []"
  by (simp add: addPeers_iter_def)

text \<open>
  No goroutine is ever started on our own address, so none dials it, whatever the schedule.
\<close>

lemma not_self_step:
  assumes "not_self N s"
  shows "not_self N (sched_step N s i)"
proof (cases i)
  case 0
  show ?thesis
  proof (cases "todo s")
    case Nil
    with 0 assms show ?thesis by (simp add: sched_step_def)
  next
    case (Cons p ps)
    with 0 assms show ?thesis
      using addPeers_iter_addr [of _ N "torrent s" p]
      by (auto simp add: sched_step_def not_self_def)
  qed
next
  case (Suc k)
  show ?thesis
  proof (cases "k < length (goroutines s)")
    case False
    with Suc assms show ?thesis by (simp add: sched_step_def)
  next
    case True
    define g where "g = goroutines s ! k"
    obtain g' t' where st: "PersistPeer_step N g (torrent s) = (g', t')"
      by (cases "PersistPeer_step N g (torrent s)")
    from True have mem: "g \<in> set (goroutines s)"
      by (simp add: g_def)
    with assms have ne: "addr g \<noteq> Addr N"
      by (simp add: not_self_def)
    from st have a': "addr g' = addr g"
      using PersistPeer_step_addr [of N g "torrent s"] by simp
    from st have d': "set (dials t') \<subseteq> insert (addr g) (set (dials (torrent s)))"
      using PersistPeer_step_dials [of N g "torrent s"] by simp
    have eq: "sched_step N s i = s\<lparr>torrent := t', goroutines := (goroutines s)[k := g']\<rparr>"
      using Suc True st by (simp add: sched_step_def g_def)
    have "\<forall>h \<in> set ((goroutines s)[k := g']). addr h \<noteq> Addr N"
    proof
      fix h assume "h \<in> set ((goroutines s)[k := g'])"
      then have "h \<in> insert g' (set (goroutines s))"
        using set_update_subset_insert by fast
      with assms a' ne show "addr h \<noteq> Addr N"
        by (auto simp add: not_self_def)
    qed
    moreover have "Addr N \<notin> set (dials t')"
      using d' ne assms by (auto simp add: not_self_def)
    ultimately show ?thesis
      by (simp add: eq not_self_def)
  qed
qed

lemma not_self_run: "not_self N s \<Longrightarrow> not_self N (run N sched s)"
proof (induction sched arbitrary: s)
  case Nil
  then show ?case by (simp add: run_def)
next
  case (Cons i sched)
  from Cons.prems have "not_self N (sched_step N s i)"
    by (rule not_self_step)
  then have "not_self N (run N sched (sched_step N s i))"
    by (rule Cons.IH)
  then show ?case by (simp add: run_def)
qed

lemma own_address_never_dialed:
  assumes "Addr N \<notin> set (dials t)"
  shows "Addr N \<notin> set (dials (torrent (run N sched (start t peers))))"
proof -
  have "not_self N (start t peers)"
    using assms by (simp add: not_self_def start_def)
  then have "not_self N (run N sched (start t peers))"
    by (rule not_self_run)
  then show ?thesis
    by (simp add: not_self_def)
qed

text \<open>
  C7. The peer list has the destination \<open>b.i2p\<close> twice; it is not our address, the torrent
  has no connection and \<open>b.i2p\<close> answers every dial. \<open>addPeers\<close> lets both entries through
  and starts two goroutines: \<open>HasOBConn\<close> finds an address only after \<open>addOBPeer\<close>, at the
  end of \<open>DialPeer\<close>. When each goroutine passes its checks before the other has finished
  its handshake, \<open>b.i2p\<close> is dialed twice.
\<close>

theorem addPeers_duplicate_dialed_twice:
  "addPeers net_up torrent_idle [peer_b, peer_b]
     = [PersistPeer ''b.i2p'' [], PersistPeer ''b.i2p'' []] \<and>
   run net_up [0, 0, 1, 1, 1, 1, 1, 2, 2, 2, 2, 2, 1, 2] (start torrent_idle [peer_b, peer_b])
     = \<lparr>torrent = \<lparr>obconns = {''b.i2p''}, ibconns = {}, closing = False,
                    dials = [''b.i2p'', ''b.i2p'']\<rparr>,
        todo = [],
        goroutines = [\<lparr>addr = ''b.i2p'', peer_id = [], triesLeft = 10, place = Exited\<rparr>,
                      \<lparr>addr = ''b.i2p'', peer_id = [], triesLeft = 10, place = Exited\<rparr>]\<rparr>"
  by (simp add: run_def sched_step_def start_def addPeers_def addPeers_iter_def net_up_def
      torrent_idle_def peer_b_def HasOBConn_def HasIBConn_def PersistPeer_def
      PersistPeer_step_def after_DialPeer_def addOBPeer_def)

end
